theory Spec2Isabelle
  imports Main "HOL-Library.Char_ord" "HOL-Library.List_Lexorder" "HOL-Library.Multiset"
begin

section \<open>Key normalisation (server index: \<open>normalizeKey\<close>)\<close>

text \<open>
  JavaScript strings are modelled as \<open>string\<close>. The functions below inspect only the
  slash, the backslash, the dot and the metacharacters of regular expressions, so the
  encoding of the other characters plays no role.
\<close>

abbreviation slash :: char where
  "slash \<equiv> CHR ''/''"

abbreviation backslash :: char where
  "backslash \<equiv> CHR 0x5C"

text \<open>The first \<open>replace\<close> of \<open>normalizeKey\<close>: every backslash becomes a slash.\<close>

definition replace_backslashes :: "string \<Rightarrow> string" where
  "replace_backslashes s = map (\<lambda>c. if c = backslash then slash else c) s"

text \<open>
  \<^verbatim>\<open>path.posix.normalize\<close> is Node's library function, not code of the repository.
  Its algorithm walks the path one \<open>/\<close>-separated segment at a time and keeps the
  segments of the result in \<open>res\<close>: an empty segment and \<open>.\<close> are skipped; \<open>..\<close>
  removes the last kept segment unless there is none or it is \<open>..\<close> itself, in which
  case \<open>..\<close> is kept when the path is relative (\<open>allowAboveRoot\<close>) and dropped when
  it is absolute; any other segment is kept.
\<close>

fun split_slash :: "string \<Rightarrow> string list" where
  "split_slash [] = [[]]"
| "split_slash (c # cs) =
     (if c = slash then [] # split_slash cs
      else (case split_slash cs of
              [] \<Rightarrow> [[c]]
            | seg # segs \<Rightarrow> (c # seg) # segs))"

fun join_slash :: "string list \<Rightarrow> string" where
  "join_slash [] = []"
| "join_slash [seg] = seg"
| "join_slash (seg # segs) = seg @ slash # join_slash segs"

fun normalizeString :: "bool \<Rightarrow> string list \<Rightarrow> string list \<Rightarrow> string list" where
  "normalizeString allowAboveRoot res [] = res"
| "normalizeString allowAboveRoot res (seg # segs) =
     (if seg = [] \<or> seg = ''.'' then normalizeString allowAboveRoot res segs
      else if seg = ''..'' then
        (if res \<noteq> [] \<and> last res \<noteq> ''..''
           then normalizeString allowAboveRoot (butlast res) segs
         else if allowAboveRoot
           then normalizeString allowAboveRoot (res @ [''..'']) segs
         else normalizeString allowAboveRoot res segs)
      else normalizeString allowAboveRoot (res @ [seg]) segs)"

definition posix_normalize :: "string \<Rightarrow> string" where
  "posix_normalize path =
     (if path = [] then ''.''
      else
        let isAbsolute = (hd path = slash);
            trailingSeparator = (last path = slash);
            p = join_slash (normalizeString (\<not> isAbsolute) [] (split_slash path))
        in if p = [] then (if isAbsolute then ''/'' else if trailingSeparator then ''./'' else ''.'')
           else (if isAbsolute then ''/'' else []) @ p @ (if trailingSeparator then ''/'' else []))"

text \<open>
  The second \<open>replace\<close>, whose pattern is one or more groups at the start of the
  string, each made of two dots followed by a slash or by the end of the string: it
  removes the longest run of leading \<open>../\<close> groups, the last of which may be a bare
  \<open>..\<close> that ends the string.
\<close>

function strip_dotdot :: "string \<Rightarrow> string" where
  "strip_dotdot s =
     (if take 3 s = ''../'' then strip_dotdot (drop 3 s)
      else if s = ''..'' then []
      else s)"
  by pat_completeness auto
termination
proof (relation "measure length")
  fix s :: string
  assume "take 3 s = ''../''"
  then have "s \<noteq> []" by auto
  then show "(drop 3 s, s) \<in> measure length" by simp
qed simp

text \<open>The third \<open>replace\<close>: all leading slashes are removed.\<close>

definition strip_leading_slashes :: "string \<Rightarrow> string" where
  "strip_leading_slashes s = dropWhile (\<lambda>c. c = slash) s"

text \<open>
  \<open>normalizeKey\<close> takes the string \<^verbatim>\<open>String(key ?? "")\<close>; the conversion of an absent
  key to the empty string is \<open>nullish\<close>.
\<close>

definition nullish :: "string option \<Rightarrow> string" where
  "nullish key = (case key of None \<Rightarrow> [] | Some k \<Rightarrow> k)"

definition normalizeKey :: "string \<Rightarrow> string" where
  "normalizeKey rawInput =
     (let raw = replace_backslashes rawInput
      in if raw = [] then []
         else strip_leading_slashes (strip_dotdot (posix_normalize raw)))"


section \<open>JavaScript helpers\<close>

text \<open>A string that may be \<open>undefined\<close>; the empty string and \<open>undefined\<close> are falsy.\<close>

definition truthy :: "string option \<Rightarrow> bool" where
  "truthy x = (case x of None \<Rightarrow> False | Some s \<Rightarrow> s \<noteq> [])"

definition startsWith :: "string \<Rightarrow> string \<Rightarrow> bool" where
  "startsWith s p = (take (length p) s = p)"

definition endsWith_slash :: "string \<Rightarrow> bool" where
  "endsWith_slash s = (s \<noteq> [] \<and> last s = slash)"

text \<open>\<open>s.replace(pat, "")\<close> with a string pattern: the first occurrence is removed.\<close>

fun remove_first :: "string \<Rightarrow> string \<Rightarrow> string" where
  "remove_first pat [] = []"
| "remove_first pat (c # cs) =
     (if take (length pat) (c # cs) = pat then drop (length pat) (c # cs)
      else c # remove_first pat cs)"

text \<open>\<open>s.replace(/\/$/, "")\<close>: one trailing slash is removed.\<close>

definition strip_trailing_slash :: "string \<Rightarrow> string" where
  "strip_trailing_slash s = (if endsWith_slash s then butlast s else s)"

text \<open>
  \<open>path.basename\<close> (Node's library): trailing slashes are ignored and the characters
  after the last remaining slash are returned.
\<close>

definition basename :: "string \<Rightarrow> string" where
  "basename p = rev (takeWhile (\<lambda>c. c \<noteq> slash) (dropWhile (\<lambda>c. c = slash) (rev p)))"

text \<open>A thrown value: an \<open>Error\<close> with its message, or anything else.\<close>

datatype thrown = Error string | Thrown

text \<open>\<open>error instanceof Error ? error.message : dflt\<close>\<close>

definition message_or :: "thrown \<Rightarrow> string \<Rightarrow> string" where
  "message_or e dflt = (case e of Error m \<Rightarrow> m | Thrown \<Rightarrow> dflt)"

section \<open>The object store client (server/s3.js)\<close>

type_synonym bytes = "nat list"

datatype s3_command =
    PutObjectCommand string bytes string
  | DeleteObjectCommand string
  | ListObjectsV2Command string "string option"
  | DeleteObjectsCommand "string list"
  | CopyObjectCommand string string

text \<open>
  The fields of a response that the code reads. \<open>Contents\<close> holds the \<open>Key\<close> of each
  listed item (\<open>None\<close> for an item without one); an absent \<open>Contents\<close> is the empty list.
\<close>

record list_output =
  Contents :: "string option list"
  IsTruncated :: bool
  NextContinuationToken :: "string option"

definition no_output :: list_output where
  "no_output = \<lparr>Contents = [], IsTruncated = False, NextContinuationToken = None\<rparr>"

text \<open>
  \<open>s3.send\<close> belongs to the AWS SDK: it is a parameter, a function from a command and the
  state \<open>'s\<close> of the store to a response or a thrown error, and the next state.
\<close>

type_synonym 's s3_client = "s3_command \<Rightarrow> 's \<Rightarrow> (thrown + list_output) \<times> 's"

record file_doc =
  userId :: "string option"
  filePath :: string
  fileName :: string
  size_bytes :: nat
  isFolder :: bool
  updatedAt :: "nat option"

text \<open>
  The \<open>details\<close> that a handler passes to the log: \<open>{ contentType }\<close> (the
  upload), \<open>{ destination }\<close> (the copy), or nothing, which is stored as \<open>null\<close>.
\<close>

datatype details = ContentType "string option" | Destination string

record log_doc =
  log_action :: string
  log_filePath :: string
  log_fileName :: string
  log_details :: "details option"
  log_userId :: "string option"
  log_createdAt :: nat

text \<open>
  What a request does to the outside world, in the order it does it: the commands sent
  to the store (with whether they succeeded) and the calls on the database.
\<close>

datatype event =
    S3Send s3_command bool
  | GetCollections
  | FilesFind string
  | FilesFindOne string
  | FilesUpdateOne string file_doc
  | FilesDeleteMany string
  | FilesDeleteOne string
  | LogsInsertOne log_doc

record 's world =
  bucket :: 's
  files :: "file_doc list"
  logs :: "log_doc list"
  trace :: "event list"

text \<open>
  The environment of the server: the \<open>AWS_*\<close> variables (\<open>configured\<close> says that the
  four required ones are set), the store client, the clock, the base64 decoder, and
  \<open>db_fault\<close>, which decides from the calls made so far (the last one being the
  database call at hand) whether that call throws.
\<close>

record 's services =
  send :: "'s s3_client"
  configured :: bool
  AWS_S3_BUCKET :: string
  AWS_S3_PREFIX :: string
  db_fault :: "event list \<Rightarrow> thrown option"
  now :: nat
  base64 :: "string \<Rightarrow> bytes"

type_synonym ('a, 's) io = "'s world \<Rightarrow> (thrown + 'a) \<times> 's world"

text \<open>\<open>await m\<close> followed by the rest of the function; a rejection skips the rest.\<close>

definition await :: "('a, 's) io \<Rightarrow> ('a \<Rightarrow> ('b, 's) io) \<Rightarrow> ('b, 's) io" where
  "await m k w = (case m w of (Inl e, w') \<Rightarrow> (Inl e, w') | (Inr x, w') \<Rightarrow> k x w')"

definition done_io :: "('a, 's) io \<Rightarrow> (unit, 's) io" where
  "done_io m w = (case m w of (Inl e, w') \<Rightarrow> (Inl e, w') | (Inr x, w') \<Rightarrow> (Inr (), w'))"

definition ensureS3Configured :: "'s services \<Rightarrow> (unit, 's) io" where
  "ensureS3Configured sv w =
     (if \<not> configured sv
      then (Inl (Error ''S3 is not configured. Check AWS_* environment variables.''), w)
      else (Inr (), w))"

definition normalizePrefix :: "string \<Rightarrow> string" where
  "normalizePrefix prefix =
     (if prefix = [] then []
      else rev (dropWhile (\<lambda>c. c = slash) (rev (dropWhile (\<lambda>c. c = slash) prefix))) @ ''/'')"

definition basePrefix :: "'s services \<Rightarrow> string" where
  "basePrefix sv = normalizePrefix (AWS_S3_PREFIX sv)"

definition buildKey :: "'s services \<Rightarrow> string \<Rightarrow> string" where
  "buildKey sv key = basePrefix sv @ key"

definition s3_send :: "'s services \<Rightarrow> s3_command \<Rightarrow> (list_output, 's) io" where
  "s3_send sv command w =
     (case send sv command (bucket w) of
        (Inl e, b) \<Rightarrow> (Inl e, w\<lparr>bucket := b, trace := trace w @ [S3Send command False]\<rparr>)
      | (Inr out, b) \<Rightarrow> (Inr out, w\<lparr>bucket := b, trace := trace w @ [S3Send command True]\<rparr>))"

definition uploadS3Object :: "'s services \<Rightarrow> string \<Rightarrow> bytes \<Rightarrow> string option \<Rightarrow> (unit, 's) io" where
  "uploadS3Object sv key buffer contentType =
     await (ensureS3Configured sv) (\<lambda>_.
     done_io (s3_send sv (PutObjectCommand (buildKey sv key) buffer
        (if truthy contentType then the contentType else ''application/octet-stream''))))"

definition deleteS3Object :: "'s services \<Rightarrow> string \<Rightarrow> (unit, 's) io" where
  "deleteS3Object sv key =
     await (ensureS3Configured sv) (\<lambda>_.
     done_io (s3_send sv (DeleteObjectCommand (buildKey sv key))))"

definition createS3Folder :: "'s services \<Rightarrow> string \<Rightarrow> (unit, 's) io" where
  "createS3Folder sv key =
     await (ensureS3Configured sv) (\<lambda>_.
     done_io (s3_send sv (PutObjectCommand (buildKey sv key) [] ''application/x-directory'')))"

definition copyS3Object :: "'s services \<Rightarrow> string \<Rightarrow> string \<Rightarrow> (unit, 's) io" where
  "copyS3Object sv sourceKey destinationKey =
     await (ensureS3Configured sv) (\<lambda>_.
     done_io (s3_send sv (CopyObjectCommand (AWS_S3_BUCKET sv @ ''/'' @ buildKey sv sourceKey)
        (buildKey sv destinationKey))))"

text \<open>\<open>.map((item) => item.Key).filter(Boolean)\<close>\<close>

definition truthy_keys :: "string option list \<Rightarrow> string list" where
  "truthy_keys items = map the (filter truthy items)"

text \<open>
  The \<open>do ... while (continuationToken)\<close> loop of \<open>deleteS3Prefix\<close>. Nothing bounds
  the number of pages a store may report, so the loop is a partial function: \<open>None\<close>
  is a walk that never ends.
\<close>

partial_function (option) deleteS3Prefix_loop ::
  "'s services \<Rightarrow> string \<Rightarrow> string option \<Rightarrow> 's world \<Rightarrow> ((thrown + unit) \<times> 's world) option" where
  "deleteS3Prefix_loop sv prefix continuationToken w =
     (case s3_send sv (ListObjectsV2Command (buildKey sv prefix) continuationToken) w of
        (Inl e, w1) \<Rightarrow> Some (Inl e, w1)
      | (Inr listResult, w1) \<Rightarrow>
          (case (if truthy_keys (Contents listResult) \<noteq> []
                 then s3_send sv (DeleteObjectsCommand (truthy_keys (Contents listResult))) w1
                 else (Inr no_output, w1)) of
             (Inl e, w2) \<Rightarrow> Some (Inl e, w2)
           | (Inr _, w2) \<Rightarrow>
               (if truthy (if IsTruncated listResult then NextContinuationToken listResult else None)
                then deleteS3Prefix_loop sv prefix (NextContinuationToken listResult) w2
                else Some (Inr (), w2))))"

declare deleteS3Prefix_loop.simps [code]

definition deleteS3Prefix ::
  "'s services \<Rightarrow> string \<Rightarrow> 's world \<Rightarrow> ((thrown + unit) \<times> 's world) option" where
  "deleteS3Prefix sv prefix w =
     (case ensureS3Configured sv w of
        (Inl e, w') \<Rightarrow> Some (Inl e, w')
      | (Inr _, w') \<Rightarrow> deleteS3Prefix_loop sv prefix None w')"

text \<open>The \<open>for (const item of contents)\<close> loop of \<open>copyS3Prefix\<close>.\<close>

fun copy_items :: "'s services \<Rightarrow> string \<Rightarrow> string \<Rightarrow> string option list \<Rightarrow> (unit, 's) io" where
  "copy_items sv sourcePrefix destinationPrefix [] w = (Inr (), w)"
| "copy_items sv sourcePrefix destinationPrefix (item # items) w =
     (if \<not> truthy item then copy_items sv sourcePrefix destinationPrefix items w
      else
        (case copyS3Object sv
                (sourcePrefix @ remove_first (buildKey sv sourcePrefix) (the item))
                (destinationPrefix @ remove_first (buildKey sv sourcePrefix) (the item)) w of
           (Inl e, w1) \<Rightarrow> (Inl e, w1)
         | (Inr _, w1) \<Rightarrow> copy_items sv sourcePrefix destinationPrefix items w1))"

partial_function (option) copyS3Prefix_loop ::
  "'s services \<Rightarrow> string \<Rightarrow> string \<Rightarrow> string option \<Rightarrow> 's world \<Rightarrow> ((thrown + unit) \<times> 's world) option" where
  "copyS3Prefix_loop sv sourcePrefix destinationPrefix continuationToken w =
     (case s3_send sv (ListObjectsV2Command (buildKey sv sourcePrefix) continuationToken) w of
        (Inl e, w1) \<Rightarrow> Some (Inl e, w1)
      | (Inr listResult, w1) \<Rightarrow>
          (case copy_items sv sourcePrefix destinationPrefix (Contents listResult) w1 of
             (Inl e, w2) \<Rightarrow> Some (Inl e, w2)
           | (Inr _, w2) \<Rightarrow>
               (if truthy (if IsTruncated listResult then NextContinuationToken listResult else None)
                then copyS3Prefix_loop sv sourcePrefix destinationPrefix (NextContinuationToken listResult) w2
                else Some (Inr (), w2))))"

declare copyS3Prefix_loop.simps [code]

definition copyS3Prefix ::
  "'s services \<Rightarrow> string \<Rightarrow> string \<Rightarrow> 's world \<Rightarrow> ((thrown + unit) \<times> 's world) option" where
  "copyS3Prefix sv sourcePrefix destinationPrefix w =
     (case ensureS3Configured sv w of
        (Inl e, w') \<Rightarrow> Some (Inl e, w')
      | (Inr _, w') \<Rightarrow> copyS3Prefix_loop sv sourcePrefix destinationPrefix None w')"


section \<open>The metadata catalog (the \<open>files\<close> and \<open>fileActivityLogs\<close> collections)\<close>

text \<open>The characters that \<open>escapeRegex\<close> escapes: the class in its pattern.\<close>

definition regex_special :: "char \<Rightarrow> bool" where
  "regex_special c \<longleftrightarrow> c \<in> set ''.*+?^${}()|[]'' \<or> c = backslash"

definition escapeRegex :: "string \<Rightarrow> string" where
  "escapeRegex val = concat (map (\<lambda>c. if regex_special c then [backslash, c] else [c]) val)"

text \<open>
  Matching a regular expression is the database's work. The patterns that the server
  builds are a caret followed by ordinary characters and escaped metacharacters;
  \<open>literal_pattern\<close> reads such a pattern body and returns the string it stands for,
  and \<open>None\<close> for any pattern that uses other syntax (an unescaped metacharacter, a
  backslash before an ordinary character or at the end).
\<close>

fun literal_pattern :: "string \<Rightarrow> string option" where
  "literal_pattern [] = Some []"
| "literal_pattern [p] = (if regex_special p then None else Some [p])"
| "literal_pattern (p # q # ps) =
     (if p = backslash then
        (if regex_special q then map_option ((#) q) (literal_pattern ps) else None)
      else if regex_special p then None
      else map_option ((#) p) (literal_pattern (q # ps)))"

definition anchored_literal :: "string \<Rightarrow> string option" where
  "anchored_literal source =
     (case source of
        [] \<Rightarrow> None
      | c # body \<Rightarrow> if c = CHR ''^'' then literal_pattern body else None)"

text \<open>
  A call on the database: it is recorded, it throws when \<open>db_fault\<close> says so (leaving
  the collections as they are), and otherwise has its effect.
\<close>

definition db_call :: "'s services \<Rightarrow> event \<Rightarrow> ('a, 's) io \<Rightarrow> ('a, 's) io" where
  "db_call sv ev effect w =
     (case db_fault sv (trace w @ [ev]) of
        Some e \<Rightarrow> (Inl e, w\<lparr>trace := trace w @ [ev]\<rparr>)
      | None \<Rightarrow> effect (w\<lparr>trace := trace w @ [ev]\<rparr>))"

definition getCollections :: "'s services \<Rightarrow> (unit, 's) io" where
  "getCollections sv = db_call sv GetCollections (\<lambda>w. (Inr (), w))"

text \<open>\<open>find({ filePath: regex })\<close>, in the order of the collection.\<close>

definition files_find :: "'s services \<Rightarrow> string \<Rightarrow> (file_doc list, 's) io" where
  "files_find sv source =
     db_call sv (FilesFind source) (\<lambda>w.
       case anchored_literal source of
         None \<Rightarrow> (Inl (Error ''pattern outside the fragment''), w)
       | Some p \<Rightarrow> (Inr (filter (\<lambda>d. startsWith (filePath d) p) (files w)), w))"

text \<open>\<open>find({ filePath: regex }).sort({ filePath: 1 })\<close>\<close>

definition files_find_sorted :: "'s services \<Rightarrow> string \<Rightarrow> (file_doc list, 's) io" where
  "files_find_sorted sv source =
     await (files_find sv source) (\<lambda>rows w. (Inr (sort_key filePath rows), w))"

definition files_findOne :: "'s services \<Rightarrow> string \<Rightarrow> (file_doc option, 's) io" where
  "files_findOne sv path =
     db_call sv (FilesFindOne path) (\<lambda>w. (Inr (find (\<lambda>d. filePath d = path) (files w)), w))"

text \<open>
  \<open>updateOne({ filePath }, { $set: doc }, { upsert: true })\<close>: the first document with
  that path takes the new fields; without one, the document is inserted.
\<close>

fun upsert :: "string \<Rightarrow> file_doc \<Rightarrow> file_doc list \<Rightarrow> file_doc list" where
  "upsert path doc [] = [doc]"
| "upsert path doc (d # ds) = (if filePath d = path then doc # ds else d # upsert path doc ds)"

definition files_updateOne :: "'s services \<Rightarrow> string \<Rightarrow> file_doc \<Rightarrow> (unit, 's) io" where
  "files_updateOne sv path doc =
     db_call sv (FilesUpdateOne path doc) (\<lambda>w. (Inr (), w\<lparr>files := upsert path doc (files w)\<rparr>))"

definition files_deleteMany :: "'s services \<Rightarrow> string \<Rightarrow> (unit, 's) io" where
  "files_deleteMany sv source =
     db_call sv (FilesDeleteMany source) (\<lambda>w.
       case anchored_literal source of
         None \<Rightarrow> (Inl (Error ''pattern outside the fragment''), w)
       | Some p \<Rightarrow> (Inr (), w\<lparr>files := filter (\<lambda>d. \<not> startsWith (filePath d) p) (files w)\<rparr>))"

fun remove_one :: "string \<Rightarrow> file_doc list \<Rightarrow> file_doc list" where
  "remove_one path [] = []"
| "remove_one path (d # ds) = (if filePath d = path then ds else d # remove_one path ds)"

definition files_deleteOne :: "'s services \<Rightarrow> string \<Rightarrow> (unit, 's) io" where
  "files_deleteOne sv path =
     db_call sv (FilesDeleteOne path) (\<lambda>w. (Inr (), w\<lparr>files := remove_one path (files w)\<rparr>))"

definition logFileAction ::
  "'s services \<Rightarrow> string \<Rightarrow> string \<Rightarrow> string \<Rightarrow> string \<Rightarrow> details option \<Rightarrow> (unit, 's) io" where
  "logFileAction sv action path name user details =
     await (getCollections sv) (\<lambda>_.
       let entry = \<lparr>log_action = action, log_filePath = path, log_fileName = name,
                    log_details = details,
                    log_userId = (if user \<noteq> [] then Some user else None),
                    log_createdAt = now sv\<rparr>
       in db_call sv (LogsInsertOne entry) (\<lambda>w. (Inr (), w\<lparr>logs := logs w @ [entry]\<rparr>)))"

text \<open>
  \<open>Promise.all\<close> over operations that have all been started: each one runs, and the
  first rejection (here, in the order of the array) is the one thrown.
\<close>

fun promise_all :: "(unit, 's) io list \<Rightarrow> (unit, 's) io" where
  "promise_all [] w = (Inr (), w)"
| "promise_all (m # ms) w =
     (case m w of
        (Inl e, w1) \<Rightarrow> (Inl e, snd (promise_all ms w1))
      | (Inr _, w1) \<Rightarrow> promise_all ms w1)"

section \<open>The request handlers (server index)\<close>

datatype 'a reply = Ok200 'a | Fail nat string

text \<open>The end of a handler: \<open>res.json({ ok: true })\<close>, or the \<open>catch\<close> block.\<close>

definition respond :: "string \<Rightarrow> (thrown + 'a) \<times> 'w \<Rightarrow> unit reply \<times> 'w" where
  "respond dflt r =
     (case r of
        (Inl e, w) \<Rightarrow> (Fail 500 (message_or e dflt), w)
      | (Inr _, w) \<Rightarrow> (Ok200 (), w))"

record file_entry =
  entry_key :: string
  entry_size :: nat
  entry_lastModified :: nat

definition keep_entry :: "string \<Rightarrow> file_doc \<Rightarrow> bool" where
  "keep_entry prefix file =
     (if \<not> startsWith (filePath file) prefix then False
      else let relative = drop (length prefix) (filePath file) in
        if relative = [] then False
        else let slashCount = length (filter (\<lambda>c. c = slash) relative) in
          if slashCount = 0 then True
          else slashCount = 1 \<and> endsWith_slash relative)"

definition to_entry :: "'s services \<Rightarrow> file_doc \<Rightarrow> file_entry" where
  "to_entry sv file =
     \<lparr>entry_key = filePath file, entry_size = size_bytes file,
      entry_lastModified = (case updatedAt file of Some t \<Rightarrow> t | None \<Rightarrow> now sv)\<rparr>"

definition list_handler ::
  "'s services \<Rightarrow> string option \<Rightarrow> 's world \<Rightarrow> file_entry list reply \<times> 's world" where
  "list_handler sv prefixParam w =
     (let prefix = normalizeKey (if truthy prefixParam then the prefixParam else []) in
      case await (getCollections sv) (\<lambda>_. files_find_sorted sv (''^'' @ escapeRegex prefix)) w of
        (Inl e, w') \<Rightarrow> (Fail 500 (message_or e ''Failed to list files''), w')
      | (Inr rows, w') \<Rightarrow> (Ok200 (map (to_entry sv) (filter (keep_entry prefix) rows)), w'))"

definition upload_handler ::
  "'s services \<Rightarrow> string \<Rightarrow> string option \<Rightarrow> string option \<Rightarrow> string option \<Rightarrow>
   's world \<Rightarrow> unit reply \<times> 's world" where
  "upload_handler sv user key content contentType w =
     (let safeKey = normalizeKey (nullish key) in
      if safeKey = [] \<or> \<not> truthy content then (Fail 400 ''Missing key or content'', w)
      else
        let buffer = base64 sv (the content);
            name = basename safeKey
        in respond ''Upload failed''
          (await (uploadS3Object sv safeKey buffer contentType) (\<lambda>_.
           await (getCollections sv) (\<lambda>_.
           await (files_updateOne sv safeKey
                    \<lparr>userId = Some user, filePath = safeKey, fileName = name,
                     size_bytes = length buffer, isFolder = False, updatedAt = Some (now sv)\<rparr>) (\<lambda>_.
           logFileAction sv ''upload'' safeKey name user
             (Some (ContentType (if truthy contentType then contentType else None)))))) w))"

definition folder_handler ::
  "'s services \<Rightarrow> string \<Rightarrow> string option \<Rightarrow> 's world \<Rightarrow> unit reply \<times> 's world" where
  "folder_handler sv user key w =
     (let safeKey = normalizeKey (nullish key) in
      if safeKey = [] then (Fail 400 ''Missing folder key'', w)
      else
        let folderKey = (if endsWith_slash safeKey then safeKey else safeKey @ ''/'');
            folderName = basename (strip_trailing_slash folderKey)
        in respond ''Create folder failed''
          (await (createS3Folder sv folderKey) (\<lambda>_.
           await (getCollections sv) (\<lambda>_.
           await (files_updateOne sv folderKey
                    \<lparr>userId = Some user, filePath = folderKey, fileName = folderName,
                     size_bytes = 0, isFolder = True, updatedAt = Some (now sv)\<rparr>) (\<lambda>_.
           logFileAction sv ''folder_create'' folderKey folderName user None))) w))"

text \<open>The document that the copy of a folder writes for one catalog record under the source.\<close>

definition copied_doc :: "'s services \<Rightarrow> string \<Rightarrow> string \<Rightarrow> string \<Rightarrow> file_doc \<Rightarrow> file_doc" where
  "copied_doc sv user sourcePrefix destPrefix file =
     (let relative = drop (length sourcePrefix) (filePath file);
          newPath = destPrefix @ relative;
          name = (if fileName file \<noteq> [] then fileName file
                  else basename (strip_trailing_slash newPath))
      in \<lparr>userId = Some user, filePath = newPath, fileName = name,
          size_bytes = size_bytes file,
          isFolder = (isFolder file \<or> endsWith_slash newPath),
          updatedAt = Some (now sv)\<rparr>)"

definition copy_catalog_sync ::
  "'s services \<Rightarrow> string \<Rightarrow> string \<Rightarrow> string \<Rightarrow> (unit, 's) io" where
  "copy_catalog_sync sv user sourcePrefix destPrefix =
     await (files_updateOne sv destPrefix
              \<lparr>userId = Some user, filePath = destPrefix,
               fileName = basename (strip_trailing_slash destPrefix),
               size_bytes = 0, isFolder = True, updatedAt = Some (now sv)\<rparr>) (\<lambda>_.
     await (files_find sv (''^'' @ escapeRegex sourcePrefix)) (\<lambda>sourceFiles.
     promise_all (map (\<lambda>file.
         files_updateOne sv (filePath (copied_doc sv user sourcePrefix destPrefix file))
           (copied_doc sv user sourcePrefix destPrefix file)) sourceFiles)))"

definition copy_handler ::
  "'s services \<Rightarrow> string \<Rightarrow> string option \<Rightarrow> string option \<Rightarrow>
   's world \<Rightarrow> (unit reply \<times> 's world) option" where
  "copy_handler sv user sourceKey destinationKey w =
     (let safeSource = normalizeKey (nullish sourceKey);
          safeDestination = normalizeKey (nullish destinationKey)
      in
      if safeSource = [] \<or> safeDestination = []
      then Some (Fail 400 ''Missing source or destination'', w)
      else
        (case getCollections sv w of
           (Inl e, w0) \<Rightarrow> Some (respond ''Copy failed'' (Inl e :: thrown + unit, w0))
         | (Inr _, w0) \<Rightarrow>
             if endsWith_slash safeSource then
               (let destPrefix = (if endsWith_slash safeDestination then safeDestination
                                  else safeDestination @ ''/'')
                in case createS3Folder sv destPrefix w0 of
                     (Inl e, w1) \<Rightarrow> Some (respond ''Copy failed'' (Inl e :: thrown + unit, w1))
                   | (Inr _, w1) \<Rightarrow>
                       (case copyS3Prefix sv safeSource destPrefix w1 of
                          None \<Rightarrow> None
                        | Some (Inl e, w2) \<Rightarrow> Some (respond ''Copy failed'' (Inl e :: thrown + unit, w2))
                        | Some (Inr _, w2) \<Rightarrow>
                            Some (respond ''Copy failed''
                              (await (copy_catalog_sync sv user safeSource destPrefix) (\<lambda>_.
                               logFileAction sv ''copy'' safeSource
                                 (basename (strip_trailing_slash safeSource)) user
                                 (Some (Destination safeDestination))) w2))))
             else
               Some (respond ''Copy failed''
                 (await (copyS3Object sv safeSource safeDestination) (\<lambda>_.
                  await (files_findOne sv safeSource) (\<lambda>sourceDoc.
                  await (files_updateOne sv safeDestination
                           \<lparr>userId = Some user, filePath = safeDestination,
                            fileName = basename safeDestination,
                            size_bytes = (case sourceDoc of Some d \<Rightarrow> size_bytes d | None \<Rightarrow> 0),
                            isFolder = False, updatedAt = Some (now sv)\<rparr>) (\<lambda>_.
                  logFileAction sv ''copy'' safeSource
                    (basename (strip_trailing_slash safeSource)) user
                    (Some (Destination safeDestination))))) w0))))"

definition delete_handler ::
  "'s services \<Rightarrow> string \<Rightarrow> string option \<Rightarrow> 's world \<Rightarrow> (unit reply \<times> 's world) option" where
  "delete_handler sv user keyParam w =
     (let key = normalizeKey (nullish keyParam) in
      if key = [] then Some (Fail 400 ''Missing key'', w)
      else if endsWith_slash key then
        (case deleteS3Prefix sv key w of
           None \<Rightarrow> None
         | Some (Inl e, w1) \<Rightarrow> Some (respond ''Delete failed'' (Inl e :: thrown + unit, w1))
         | Some (Inr _, w1) \<Rightarrow>
             Some (respond ''Delete failed''
               (await (getCollections sv) (\<lambda>_.
                await (files_deleteMany sv (''^'' @ escapeRegex key)) (\<lambda>_.
                logFileAction sv ''folder_delete'' key (basename (strip_trailing_slash key))
                  user None)) w1)))
      else
        Some (respond ''Delete failed''
          (await (deleteS3Object sv key) (\<lambda>_.
           await (getCollections sv) (\<lambda>_.
           await (files_deleteOne sv key) (\<lambda>_.
           logFileAction sv ''delete'' key (basename key) user None))) w)))"


section \<open>A reference object store\<close>

text \<open>
  The store itself is a service outside the repository. To state what the operations
  do to it, the bucket is a list of keys with their bytes, and the client answers as
  the store's interface is described: a put overwrites, a delete of an absent key
  succeeds, a copy of an absent source fails, and a list returns the keys under the
  prefix in ascending order, at most \<open>maxKeys\<close> per page, with a continuation token
  that stands for the last key of the page. The token is opaque to the server; here
  it is that key behind a marker character.
\<close>

type_synonym bucket_state = "(string \<times> bytes) list"

definition bucket_keys :: "bucket_state \<Rightarrow> string list" where
  "bucket_keys b = sort (remdups (map fst b))"

definition token_of :: "string \<Rightarrow> string" where
  "token_of k = CHR ''>'' # k"

definition after_token :: "string option \<Rightarrow> string \<Rightarrow> bool" where
  "after_token token k = (case token of None \<Rightarrow> True | Some t \<Rightarrow> tl t < k)"

definition list_page :: "nat \<Rightarrow> string \<Rightarrow> string option \<Rightarrow> bucket_state \<Rightarrow> list_output" where
  "list_page maxKeys prefix token b =
     (let ks = filter (\<lambda>k. startsWith k prefix \<and> after_token token k) (bucket_keys b);
          page = take maxKeys ks
      in \<lparr>Contents = map Some page,
          IsTruncated = (maxKeys < length ks),
          NextContinuationToken =
            (if maxKeys < length ks \<and> page \<noteq> [] then Some (token_of (last page)) else None)\<rparr>)"

definition put_object :: "string \<Rightarrow> bytes \<Rightarrow> bucket_state \<Rightarrow> bucket_state" where
  "put_object k body b = (k, body) # filter (\<lambda>kv. fst kv \<noteq> k) b"

definition s3_model :: "nat \<Rightarrow> string \<Rightarrow> bucket_state s3_client" where
  "s3_model maxKeys bucketName command b =
     (case command of
        PutObjectCommand k body contentType \<Rightarrow> (Inr no_output, put_object k body b)
      | DeleteObjectCommand k \<Rightarrow> (Inr no_output, filter (\<lambda>kv. fst kv \<noteq> k) b)
      | DeleteObjectsCommand ks \<Rightarrow> (Inr no_output, filter (\<lambda>kv. fst kv \<notin> set ks) b)
      | CopyObjectCommand copySource k \<Rightarrow>
          (if \<not> startsWith copySource (bucketName @ ''/'') then (Inl (Error ''NoSuchBucket''), b)
           else (case map_of b (drop (length bucketName + 1) copySource) of
                   None \<Rightarrow> (Inl (Error ''NoSuchKey''), b)
                 | Some body \<Rightarrow> (Inr no_output, put_object k body b)))
      | ListObjectsV2Command prefix token \<Rightarrow> (Inr (list_page maxKeys prefix token b), b))"

text \<open>
  A store that answers the list requests from a fixed sequence of pages, whatever the
  request says: its state is the number of pages served. Every other command succeeds.
\<close>

definition scripted :: "(nat \<Rightarrow> list_output) \<Rightarrow> nat s3_client" where
  "scripted pages command n =
     (case command of
        ListObjectsV2Command prefix token \<Rightarrow> (Inr (pages n), Suc n)
      | _ \<Rightarrow> (Inr no_output, n))"

section \<open>Notions used to state the properties\<close>

text \<open>A path segment that is a name: not empty, not \<open>.\<close> or \<open>..\<close>, without separators.\<close>

definition regular_segment :: "string \<Rightarrow> bool" where
  "regular_segment seg \<longleftrightarrow>
     seg \<noteq> [] \<and> seg \<noteq> ''.'' \<and> seg \<noteq> ''..'' \<and> slash \<notin> set seg \<and> backslash \<notin> set seg"

text \<open>
  Physical resolution of a path below the root: \<open>dir\<close> is the list of directories
  entered so far, \<open>..\<close> leaves the last one, and \<open>None\<close> is a step above the root.
\<close>

fun resolve_from :: "string list \<Rightarrow> string list \<Rightarrow> string list option" where
  "resolve_from dir [] = Some dir"
| "resolve_from dir (seg # segs) =
     (if seg = [] \<or> seg = ''.'' then resolve_from dir segs
      else if seg = ''..'' then (if dir = [] then None else resolve_from (butlast dir) segs)
      else resolve_from (dir @ [seg]) segs)"

definition escapes_root :: "string \<Rightarrow> bool" where
  "escapes_root key \<longleftrightarrow> resolve_from [] (split_slash key) = None"

text \<open>The keys that \<open>normalizeKey\<close> returns.\<close>

definition canonical_key :: "string \<Rightarrow> bool" where
  "canonical_key k \<longleftrightarrow>
     k = [] \<or> k = ''.'' \<or> k = ''./'' \<or>
     (\<exists>rest t. rest \<noteq> [] \<and> (\<forall>s\<in>set rest. regular_segment s) \<and> (t = [] \<or> t = [[]]) \<and>
        k = join_slash (rest @ t))"

text \<open>The segments kept by \<open>normalizeString\<close>: some \<open>..\<close> (none for an absolute path), then names.\<close>

definition norm_shape :: "bool \<Rightarrow> string list \<Rightarrow> bool" where
  "norm_shape allow res \<longleftrightarrow>
     (\<exists>k rest. res = replicate k ''..'' @ rest \<and> (\<forall>s\<in>set rest. regular_segment s) \<and>
        (\<not> allow \<longrightarrow> k = 0))"

text \<open>
  The listing rule in the words of the specification: the key starts with the prefix,
  and what follows the prefix is not empty and either has no slash or has exactly one,
  as its last character.
\<close>

definition direct_child :: "string \<Rightarrow> string \<Rightarrow> bool" where
  "direct_child prefix k \<longleftrightarrow>
     (\<exists>rest. k = prefix @ rest \<and> rest \<noteq> [] \<and>
        (slash \<notin> set rest \<or> (count_list rest slash = 1 \<and> last rest = slash)))"

fun is_s3 :: "event \<Rightarrow> bool" where
  "is_s3 (S3Send command ok) = True"
| "is_s3 _ = False"

fun s3_failed :: "event \<Rightarrow> bool" where
  "s3_failed (S3Send command ok) = (\<not> ok)"
| "s3_failed _ = False"

fun is_catalog_write :: "event \<Rightarrow> bool" where
  "is_catalog_write (FilesUpdateOne path doc) = True"
| "is_catalog_write (FilesDeleteMany source) = True"
| "is_catalog_write (FilesDeleteOne path) = True"
| "is_catalog_write _ = False"

text \<open>
  The order of a request's calls: when there is a write on the catalog, a command was
  sent to the store before the first write, no command of the request failed, and no
  command is sent after the first write.
\<close>

definition store_first :: "event list \<Rightarrow> bool" where
  "store_first evs =
     (let before = takeWhile (\<lambda>e. \<not> is_catalog_write e) evs;
          rest = dropWhile (\<lambda>e. \<not> is_catalog_write e) evs
      in rest = [] \<or>
         ((\<exists>e\<in>set before. is_s3 e) \<and> (\<forall>e\<in>set evs. \<not> s3_failed e) \<and> (\<forall>e\<in>set rest. \<not> is_s3 e)))"

text \<open>The list requests among the calls: the prefix and the continuation token of each.\<close>

fun list_requests :: "event list \<Rightarrow> (string \<times> string option) list" where
  "list_requests [] = []"
| "list_requests (S3Send (ListObjectsV2Command prefix token) ok # evs) =
     (prefix, token) # list_requests evs"
| "list_requests (e # evs) = list_requests evs"

text \<open>The calls that a request adds to those made before it.\<close>

definition new_events :: "'s world \<Rightarrow> 's world \<Rightarrow> event list" where
  "new_events w w' = drop (length (trace w)) (trace w')"


text \<open>
  The first database call among the events \<open>evs\<close> (made after the calls \<open>pre\<close>)
  that throws, with what it throws.
\<close>

fun first_fault :: "(event list \<Rightarrow> thrown option) \<Rightarrow> event list \<Rightarrow> event list \<Rightarrow> thrown option" where
  "first_fault fault pre [] = None"
| "first_fault fault pre (ev # evs) =
     (if is_s3 ev then first_fault fault (pre @ [ev]) evs
      else (case fault (pre @ [ev]) of
              Some e \<Rightarrow> Some e
            | None \<Rightarrow> first_fault fault (pre @ [ev]) evs))"

text \<open>
  What a run of database calls does: it leaves the store alone, sends it nothing,
  changes the catalog only by a write, and is rejected exactly when one of its calls
  throws, with what the first such call throws.
\<close>

definition db_run :: "'s services \<Rightarrow> 's world \<Rightarrow> thrown + 'a \<Rightarrow> 's world \<Rightarrow> bool" where
  "db_run sv w r w' \<longleftrightarrow>
     bucket w' = bucket w \<and>
     (\<exists>evs. trace w' = trace w @ evs \<and> (\<forall>e\<in>set evs. \<not> is_s3 e) \<and>
        ((\<forall>e\<in>set evs. \<not> is_catalog_write e) \<longrightarrow> files w' = files w) \<and>
        first_fault (db_fault sv) (trace w) evs = (case r of Inl e \<Rightarrow> Some e | Inr x \<Rightarrow> None))"

definition db_io :: "'s services \<Rightarrow> ('a, 's) io \<Rightarrow> bool" where
  "db_io sv m \<longleftrightarrow> (\<forall>w. db_run sv w (fst (m w)) (snd (m w)))"

text \<open>
  What a run of store commands does: it leaves the catalog alone and makes no database
  call; when it is fulfilled, none of its commands failed (\<open>s3_run\<close>: and it sent at
  least one).
\<close>

definition s3_steps :: "'s world \<Rightarrow> thrown + 'a \<Rightarrow> 's world \<Rightarrow> bool" where
  "s3_steps w r w' \<longleftrightarrow>
     files w' = files w \<and>
     (\<exists>evs. trace w' = trace w @ evs \<and> (\<forall>e\<in>set evs. is_s3 e) \<and>
        (case r of Inl e \<Rightarrow> True | Inr x \<Rightarrow> \<forall>e\<in>set evs. \<not> s3_failed e))"

definition s3_run :: "'s world \<Rightarrow> thrown + 'a \<Rightarrow> 's world \<Rightarrow> bool" where
  "s3_run w r w' \<longleftrightarrow>
     files w' = files w \<and>
     (\<exists>evs. trace w' = trace w @ evs \<and> (\<forall>e\<in>set evs. is_s3 e) \<and>
        (case r of Inl e \<Rightarrow> True | Inr x \<Rightarrow> evs \<noteq> [] \<and> (\<forall>e\<in>set evs. \<not> s3_failed e)))"

text \<open>
  A request as a whole, from the world \<open>w\<close> to the reply and the world \<open>w'\<close>: its
  calls are in the order of \<open>store_first\<close>, the catalog changes only by a write, and
  a database call that throws makes the reply the error response with its message.
\<close>

definition request_ok :: "'s services \<Rightarrow> string \<Rightarrow> 's world \<Rightarrow> unit reply \<Rightarrow> 's world \<Rightarrow> bool" where
  "request_ok sv dflt w r w' \<longleftrightarrow>
     (\<exists>evs. trace w' = trace w @ evs \<and> store_first evs \<and>
        ((\<forall>e\<in>set evs. \<not> is_catalog_write e) \<longrightarrow> files w' = files w) \<and>
        (\<forall>e. first_fault (db_fault sv) (trace w) evs = Some e \<longrightarrow> r = Fail 500 (message_or e dflt)))"

text \<open>
  The ordering guarantee: the request's calls extend the trace in the order of
  \<open>store_first\<close>, and when a store command failed, or none was sent, the catalog is
  unchanged and no write on it was issued.
\<close>

definition store_before_catalog :: "'s world \<Rightarrow> 's world \<Rightarrow> bool" where
  "store_before_catalog w w' \<longleftrightarrow>
     trace w' = trace w @ new_events w w' \<and> store_first (new_events w w') \<and>
     ((\<exists>e\<in>set (new_events w w'). s3_failed e) \<or> (\<forall>e\<in>set (new_events w w'). \<not> is_s3 e) \<longrightarrow>
        files w' = files w \<and> (\<forall>e\<in>set (new_events w w'). \<not> is_catalog_write e))"

text \<open>
  How a failure of the database shows in the reply: when a database call of the
  request throws, the reply is the error response, status 500, with the message of the
  first call that threw.
\<close>

definition db_failure_reported ::
  "'s services \<Rightarrow> string \<Rightarrow> 's world \<Rightarrow> unit reply \<Rightarrow> 's world \<Rightarrow> bool" where
  "db_failure_reported sv dflt w r w' \<longleftrightarrow>
     (\<forall>e. first_fault (db_fault sv) (trace w) (new_events w w') = Some e \<longrightarrow>
        r = Fail 500 (message_or e dflt))"

section \<open>Sample environments\<close>

text \<open>
  The decoder of the samples: base64 over the standard alphabet (and its URL-safe
  variant); the input ends at the first padding character, a character outside the
  alphabet is skipped, and each group of four digits gives three bytes (a last group
  of three digits two bytes, of two digits one byte).
\<close>

definition base64_value :: "char \<Rightarrow> nat option" where
  "base64_value c =
     (let n = (of_char c :: nat) in
      if 65 \<le> n \<and> n \<le> 90 then Some (n - 65)
      else if 97 \<le> n \<and> n \<le> 122 then Some (n - 71)
      else if 48 \<le> n \<and> n \<le> 57 then Some (n + 4)
      else if c = CHR ''+'' \<or> c = CHR ''-'' then Some 62
      else if c = CHR ''/'' \<or> c = CHR ''_'' then Some 63
      else None)"

fun base64_bytes :: "nat list \<Rightarrow> bytes" where
  "base64_bytes (a # b # c # d # rest) =
     (a * 4 + b div 16) # ((b mod 16) * 16 + c div 4) # ((c mod 4) * 64 + d) # base64_bytes rest"
| "base64_bytes [a, b, c] = [a * 4 + b div 16, (b mod 16) * 16 + c div 4]"
| "base64_bytes [a, b] = [a * 4 + b div 16]"
| "base64_bytes digits = []"

definition base64_decode :: "string \<Rightarrow> bytes" where
  "base64_decode s =
     base64_bytes (List.map_filter base64_value (takeWhile (\<lambda>c. c \<noteq> CHR ''='') s))"

text \<open>
  A configured server over the reference store with pages of 1000 keys and a database
  that does not fail, and a small bucket and catalog. The user of the samples is
  \<open>65a1b2c3d4e5f60718293a4b\<close>, an identifier of the form that the database gives
  to its records.
\<close>

definition sample_services :: "bucket_state services" where
  "sample_services =
     \<lparr>send = s3_model 1000 ''vault'', configured = True, AWS_S3_BUCKET = ''vault'',
      AWS_S3_PREFIX = ''uploads'', db_fault = (\<lambda>t. None), now = 1700, base64 = base64_decode\<rparr>"

definition sample_doc :: "string \<Rightarrow> string \<Rightarrow> nat \<Rightarrow> bool \<Rightarrow> file_doc" where
  "sample_doc path name n folder =
     \<lparr>userId = Some ''65a1b2c3d4e5f60718293a4b'', filePath = path, fileName = name, size_bytes = n,
      isFolder = folder, updatedAt = Some 1600\<rparr>"

definition sample_world :: "bucket_state world" where
  "sample_world =
     \<lparr>bucket = [(''uploads/reports/'', []), (''uploads/reports/q1.pdf'', [1, 2, 3, 4, 5])],
      files = [sample_doc ''reports/sub/deep.txt'' ''deep.txt'' 7 False,
               sample_doc ''reports/sub/'' ''sub'' 0 True,
               sample_doc ''reports/q1.pdf'' ''q1.pdf'' 5 False,
               sample_doc ''reports/'' ''reports'' 0 True,
               sample_doc ''readme.txt'' ''readme.txt'' 3 False],
      logs = [], trace = []\<rparr>"

text \<open>A store that answers two list requests: a truncated page, then the last one.\<close>

definition two_pages :: "nat \<Rightarrow> list_output" where
  "two_pages i =
     (if i = 0 then \<lparr>Contents = [Some ''uploads/a/1'', Some ''uploads/a/2''], IsTruncated = True,
                      NextContinuationToken = Some ''t1''\<rparr>
      else \<lparr>Contents = [Some ''uploads/a/3''], IsTruncated = False, NextContinuationToken = None\<rparr>)"

definition scripted_services :: "nat services" where
  "scripted_services =
     \<lparr>send = scripted two_pages, configured = True, AWS_S3_BUCKET = ''vault'',
      AWS_S3_PREFIX = ''uploads'', db_fault = (\<lambda>t. None), now = 1700, base64 = base64_decode\<rparr>"

definition scripted_world :: "nat world" where
  "scripted_world = \<lparr>bucket = 0, files = [], logs = [], trace = []\<rparr>"

text \<open>A database whose writes on the catalog throw, and one whose log insertions throw.\<close>

definition failing_catalog :: "event list \<Rightarrow> thrown option" where
  "failing_catalog t =
     (if t \<noteq> [] \<and> is_catalog_write (last t) then Some (Error ''catalog unavailable'') else None)"

fun is_log_insert :: "event \<Rightarrow> bool" where
  "is_log_insert (LogsInsertOne entry) = True"
| "is_log_insert _ = False"

definition failing_log :: "event list \<Rightarrow> thrown option" where
  "failing_log t =
     (if t \<noteq> [] \<and> is_log_insert (last t) then Some (Error ''log unavailable'') else None)"

text \<open>A catalog with a record marked as a folder whose path does not end in a slash.\<close>

definition legacy_world :: "bucket_state world" where
  "legacy_world =
     sample_world\<lparr>files := sample_doc ''reports/legacy'' ''Legacy data'' 0 True # files sample_world\<rparr>"

section \<open>Properties of key normalisation\<close>

lemma split_slash_nonempty: "split_slash s \<noteq> []"
  by (induction s) (auto split: list.splits)

lemma split_slash_no_slash: "seg \<in> set (split_slash s) \<Longrightarrow> slash \<notin> set seg"
  by (induction s arbitrary: seg) (auto split: list.splits if_splits)

lemma split_slash_subset: "seg \<in> set (split_slash s) \<Longrightarrow> set seg \<subseteq> set s"
proof (induction s arbitrary: seg)
  case Nil
  then show ?case by simp
next
  case (Cons c cs)
  show ?case
  proof (cases "c = slash")
    case True
    then show ?thesis using Cons by auto
  next
    case False
    obtain x xs where sp: "split_slash cs = x # xs"
      using split_slash_nonempty[of cs] by (cases "split_slash cs") auto
    then have "seg = c # x \<or> seg \<in> set xs" using Cons.prems False by simp
    moreover have "set x \<subseteq> set cs" "\<And>y. y \<in> set xs \<Longrightarrow> set y \<subseteq> set cs"
      using Cons.IH sp by auto
    ultimately show ?thesis by auto
  qed
qed

lemma split_slash_no_slash_id: "slash \<notin> set s \<Longrightarrow> split_slash s = [s]"
  by (induction s) auto

lemma split_slash_append:
  "slash \<notin> set seg \<Longrightarrow> split_slash (seg @ slash # s) = seg # split_slash s"
  by (induction seg) auto

lemma split_join:
  "segs \<noteq> [] \<Longrightarrow> \<forall>s\<in>set segs. slash \<notin> set s \<Longrightarrow> split_slash (join_slash segs) = segs"
proof (induction segs rule: join_slash.induct)
  case 1
  then show ?case by simp
next
  case (2 seg)
  then show ?case by (simp add: split_slash_no_slash_id)
next
  case (3 seg v va)
  then show ?case by (simp add: split_slash_append)
qed

lemma join_slash_Cons: "segs \<noteq> [] \<Longrightarrow> join_slash (seg # segs) = seg @ slash # join_slash segs"
  by (cases segs) auto

lemma join_slash_snoc_empty: "segs \<noteq> [] \<Longrightarrow> join_slash (segs @ [[]]) = join_slash segs @ [slash]"
  by (induction segs rule: join_slash.induct) auto

lemma normalizeString_regular:
  "\<forall>s\<in>set rest. regular_segment s \<Longrightarrow> normalizeString allow res rest = res @ rest"
  by (induction rest arbitrary: res) (auto simp: regular_segment_def)

lemma normalizeString_append:
  "normalizeString allow res (xs @ ys) = normalizeString allow (normalizeString allow res xs) ys"
  by (induction xs arbitrary: res) auto

lemma norm_shape_step:
  assumes "norm_shape allow res" "slash \<notin> set seg" "backslash \<notin> set seg"
  shows "norm_shape allow (normalizeString allow res [seg])"
proof -
  from assms(1) obtain k rest where res: "res = replicate k ''..'' @ rest"
    and reg: "\<forall>s\<in>set rest. regular_segment s" and k: "\<not> allow \<longrightarrow> k = 0"
    unfolding norm_shape_def by blast
  consider (skip) "seg = [] \<or> seg = ''.''" | (up) "seg = ''..''" | (keep) "regular_segment seg"
    using assms(2,3) unfolding regular_segment_def by blast
  then show ?thesis
  proof cases
    case skip
    then show ?thesis using assms(1) by auto
  next
    case up
    show ?thesis
    proof (cases "rest = []")
      case True
      then have res': "res = replicate k ''..''" using res by simp
      then have l: "res = [] \<or> last res = ''..''" by (cases k) auto
      show ?thesis
      proof (cases allow)
        case True
        have "normalizeString allow res [seg] = replicate (Suc k) ''..'' @ []"
          using l up True res' by (auto simp: replicate_append_same)
        then show ?thesis unfolding norm_shape_def using True by (metis empty_iff empty_set)
      next
        case False
        then have "res = []" using k res' by simp
        then have "normalizeString allow res [seg] = replicate 0 ''..'' @ []"
          using up False by simp
        then show ?thesis unfolding norm_shape_def by (metis empty_iff empty_set)
      qed
    next
      case False
      then have l: "res \<noteq> [] \<and> last res \<noteq> ''..''"
        using res reg by (auto simp: regular_segment_def)
      have "butlast res = replicate k ''..'' @ butlast rest"
        using False res by (simp add: butlast_append)
      moreover have "\<forall>s\<in>set (butlast rest). regular_segment s"
        using reg by (meson in_set_butlastD)
      ultimately show ?thesis using up l k unfolding norm_shape_def by auto
    qed
  next
    case keep
    then have "normalizeString allow res [seg] = replicate k ''..'' @ (rest @ [seg])"
      using res by (auto simp: regular_segment_def)
    then show ?thesis using reg keep k unfolding norm_shape_def
      by (metis (no_types, lifting) Un_iff insert_iff list.set(2) set_append empty_set empty_iff)
  qed
qed

lemma norm_shape_normalizeString:
  "norm_shape allow res \<Longrightarrow> \<forall>s\<in>set segs. slash \<notin> set s \<and> backslash \<notin> set s \<Longrightarrow>
   norm_shape allow (normalizeString allow res segs)"
proof (induction segs arbitrary: res)
  case Nil
  then show ?case by simp
next
  case (Cons seg segs)
  have "norm_shape allow (normalizeString allow res [seg])"
    using Cons.prems by (intro norm_shape_step) auto
  then have "norm_shape allow (normalizeString allow (normalizeString allow res [seg]) segs)"
    using Cons by auto
  then show ?case using normalizeString_append[of allow res "[seg]" segs] by simp
qed


declare strip_dotdot.simps [simp del]

lemma strip_dotdot_Nil: "strip_dotdot [] = []"
  by (subst strip_dotdot.simps) simp

lemma strip_dotdot_dotdot: "strip_dotdot ''..'' = []"
  by (subst strip_dotdot.simps) simp

lemma strip_dotdot_consts:
  "strip_dotdot ''/'' = ''/''" "strip_dotdot ''./'' = ''./''" "strip_dotdot ''.'' = ''.''"
  by (subst strip_dotdot.simps, simp)+

lemma strip_dotdot_regular:
  assumes "regular_segment seg" "u = [] \<or> hd u = slash"
  shows "strip_dotdot (seg @ u) = seg @ u"
proof -
  have ne: "seg \<noteq> []" "seg \<noteq> ''.''" "seg \<noteq> ''..''" "slash \<notin> set seg"
    using assms(1) by (auto simp: regular_segment_def)
  have a: "take 3 (seg @ u) \<noteq> ''../''"
  proof
    assume h: "take 3 (seg @ u) = ''../''"
    show False
    proof (cases seg)
      case Nil
      then show ?thesis using ne by simp
    next
      case c1: (Cons a s1)
      show ?thesis
      proof (cases s1)
        case Nil
        then show ?thesis using c1 h ne assms(2) by (cases u) auto
      next
        case c2: (Cons b s2)
        show ?thesis
        proof (cases s2)
          case Nil
          then show ?thesis using c1 c2 h ne by (cases u) auto
        next
          case (Cons c s3)
          then show ?thesis using c1 c2 h ne by auto
        qed
      qed
    qed
  qed
  have b: "seg @ u \<noteq> ''..''"
  proof
    assume h: "seg @ u = ''..''"
    then have "take 3 (seg @ u) = ''..''" by simp
    show False
    proof (cases u)
      case Nil
      then show ?thesis using h ne by simp
    next
      case (Cons c cs)
      then have "c = slash" using assms(2) by simp
      then have "slash \<in> set (seg @ u)" using Cons by simp
      then show ?thesis using h by simp
    qed
  qed
  show ?thesis using a b by (subst strip_dotdot.simps) simp
qed

lemma join_slash_regular_head:
  assumes "rest \<noteq> []" "\<forall>s\<in>set rest. regular_segment s"
  shows "\<exists>seg u. regular_segment seg \<and> (u = [] \<or> hd u = slash) \<and> join_slash (rest @ t) = seg @ u"
proof (cases rest)
  case Nil
  then show ?thesis using assms by simp
next
  case (Cons seg r)
  show ?thesis
  proof (cases "r @ t = []")
    case True
    then have "join_slash (rest @ t) = seg @ []" using Cons by simp
    then show ?thesis using assms Cons by (metis list.set_intros(1))
  next
    case False
    then have "join_slash (rest @ t) = seg @ (slash # join_slash (r @ t))"
      using Cons join_slash_Cons[of "r @ t" seg] by simp
    moreover have "hd (slash # join_slash (r @ t)) = slash" by simp
    ultimately show ?thesis using assms Cons by (metis list.set_intros(1))
  qed
qed

lemma strip_dotdot_join:
  assumes "\<forall>s\<in>set rest. regular_segment s" "t = [] \<or> t = [[]]"
  shows "strip_dotdot (join_slash (replicate k ''..'' @ rest @ t)) = join_slash (rest @ t)"
proof (induction k)
  case 0
  show ?case
  proof (cases "rest = []")
    case True
    then show ?thesis using assms(2) by (auto simp: strip_dotdot_Nil)
  next
    case False
    then obtain seg u where "regular_segment seg" "u = [] \<or> hd u = slash"
      "join_slash (rest @ t) = seg @ u"
      using join_slash_regular_head[OF _ assms(1)] by blast
    then show ?thesis using strip_dotdot_regular by simp
  qed
next
  case (Suc k)
  let ?tl = "replicate k ''..'' @ rest @ t"
  show ?case
  proof (cases "?tl = []")
    case True
    then show ?thesis by (simp add: strip_dotdot_dotdot)
  next
    case False
    then have "join_slash (replicate (Suc k) ''..'' @ rest @ t) = ''../'' @ join_slash ?tl"
      using join_slash_Cons[of ?tl "''..''"] by simp
    then have "strip_dotdot (join_slash (replicate (Suc k) ''..'' @ rest @ t)) = strip_dotdot (join_slash ?tl)"
      by (subst strip_dotdot.simps) simp
    then show ?thesis using Suc by simp
  qed
qed

lemma join_slash_hd:
  assumes "rest \<noteq> []" "\<forall>s\<in>set rest. regular_segment s"
  shows "join_slash (rest @ t) \<noteq> [] \<and> hd (join_slash (rest @ t)) \<noteq> slash"
proof -
  obtain seg u where "regular_segment seg" "join_slash (rest @ t) = seg @ u"
    using join_slash_regular_head[OF assms] by blast
  then show ?thesis by (cases seg) (auto simp: regular_segment_def)
qed

lemma strip_leading_slashes_id: "s = [] \<or> hd s \<noteq> slash \<Longrightarrow> strip_leading_slashes s = s"
  by (cases s) (auto simp: strip_leading_slashes_def)

lemma replace_backslashes_none: "backslash \<notin> set (replace_backslashes s)"
  by (auto simp: replace_backslashes_def)

lemma replace_backslashes_id: "backslash \<notin> set s \<Longrightarrow> replace_backslashes s = s"
  by (induction s) (auto simp: replace_backslashes_def)

lemma normalizeKey_canonical: "canonical_key (normalizeKey x)"
proof -
  define raw where "raw = replace_backslashes x"
  show ?thesis
  proof (cases "raw = []")
    case True
    then show ?thesis by (simp add: normalizeKey_def raw_def canonical_key_def)
  next
    case False
    define isAbs where "isAbs = (hd raw = slash)"
    define out where "out = normalizeString (\<not> isAbs) [] (split_slash raw)"
    define t :: "string list" where "t = (if last raw = slash then [[]] else [])"
    have tt: "t = [] \<or> t = [[]]" by (simp add: t_def)
    have segs: "\<forall>s\<in>set (split_slash raw). slash \<notin> set s \<and> backslash \<notin> set s"
      using split_slash_no_slash split_slash_subset replace_backslashes_none raw_def by blast
    have "norm_shape (\<not> isAbs) []" unfolding norm_shape_def by (intro exI[of _ 0] exI[of _ "[]"]) simp
    then have "norm_shape (\<not> isAbs) out"
      unfolding out_def using segs by (rule norm_shape_normalizeString)
    then obtain k rest where out: "out = replicate k ''..'' @ rest"
      and reg: "\<forall>s\<in>set rest. regular_segment s" and k: "isAbs \<longrightarrow> k = 0"
      unfolding norm_shape_def by auto
    have nk: "normalizeKey x = strip_leading_slashes (strip_dotdot (posix_normalize raw))"
      using False by (simp add: normalizeKey_def raw_def)
    show ?thesis
    proof (cases "join_slash out = []")
      case True
      then have "posix_normalize raw = ''/'' \<or> posix_normalize raw = ''./'' \<or> posix_normalize raw = ''.''"
        using False by (auto simp: posix_normalize_def out_def isAbs_def Let_def)
      then show ?thesis unfolding nk
        by (auto simp: strip_dotdot_consts strip_leading_slashes_def canonical_key_def)
    next
      case pne: False
      then have one: "out \<noteq> []" by auto
      have pn: "posix_normalize raw = (if isAbs then ''/'' else []) @ join_slash (out @ t)"
        using False pne one by (auto simp: posix_normalize_def out_def isAbs_def Let_def t_def join_slash_snoc_empty)
      show ?thesis
      proof (cases isAbs)
        case True
        then have o: "out = rest" "rest \<noteq> []" using k out one by auto
        have h: "join_slash (rest @ t) \<noteq> [] \<and> hd (join_slash (rest @ t)) \<noteq> slash"
          using join_slash_hd[OF o(2) reg] .
        have "strip_dotdot (slash # join_slash (rest @ t)) = slash # join_slash (rest @ t)"
          by (subst strip_dotdot.simps) (use h in \<open>cases "join_slash (rest @ t)"; simp\<close>)
        moreover have "strip_leading_slashes (slash # join_slash (rest @ t)) = join_slash (rest @ t)"
          using h by (cases "join_slash (rest @ t)") (auto simp: strip_leading_slashes_def)
        ultimately have "normalizeKey x = join_slash (rest @ t)"
          using nk pn True o by simp
        then show ?thesis unfolding canonical_key_def using o reg tt by blast
      next
        case rel: False
        have sd: "strip_dotdot (posix_normalize raw) = join_slash (rest @ t)"
          using pn rel out strip_dotdot_join[OF reg tt, of k] by simp
        show ?thesis
        proof (cases "rest = []")
          case True
          then have "join_slash (rest @ t) = []" using tt by auto
          then show ?thesis using nk sd by (simp add: canonical_key_def strip_leading_slashes_def)
        next
          case False
          have "normalizeKey x = join_slash (rest @ t)"
            using nk sd join_slash_hd[OF False reg, of t] strip_leading_slashes_id by simp
          then show ?thesis unfolding canonical_key_def using False reg tt by blast
        qed
      qed
    qed
  qed
qed


lemma set_join_slash: "set (join_slash segs) \<subseteq> \<Union> (set ` set segs) \<union> {slash}"
  by (induction segs rule: join_slash.induct) auto

lemma split_slash_consts:
  "split_slash ''.'' = [''.'']" "split_slash ''./'' = [''.'', []]"
  by simp_all

lemma canonical_key_cases:
  assumes "canonical_key k"
  obtains "k = []" | "k = ''.''" | "k = ''./''"
    | rest t where "rest \<noteq> []" "\<forall>s\<in>set rest. regular_segment s" "t = [] \<or> t = [[]]"
        "k = join_slash (rest @ t)"
  using assms unfolding canonical_key_def by blast

lemma regular_segment_no_slash: "regular_segment s \<Longrightarrow> slash \<notin> set s"
  by (simp add: regular_segment_def)

lemma canonical_key_split:
  assumes "canonical_key k"
  shows "\<forall>s\<in>set (split_slash k). s = [] \<or> s = ''.'' \<or> regular_segment s"
  using assms
proof (cases rule: canonical_key_cases)
  case 1
  then show ?thesis by simp
next
  case 2
  then show ?thesis by (simp only: split_slash_consts) simp
next
  case 3
  then show ?thesis by (simp only: split_slash_consts) simp
next
  case (4 rest t)
  have "\<forall>s\<in>set (rest @ t). slash \<notin> set s"
  proof
    fix s assume "s \<in> set (rest @ t)"
    then have "s \<in> set rest \<or> s = []" using 4(3) by auto
    then show "slash \<notin> set s" using 4(2) regular_segment_no_slash by auto
  qed
  then have sp: "split_slash k = rest @ t" using 4(1,4) split_join[of "rest @ t"] by simp
  show ?thesis
  proof
    fix s assume "s \<in> set (split_slash k)"
    then have "s \<in> set rest \<or> s = []" using sp 4(3) by auto
    then show "s = [] \<or> s = ''.'' \<or> regular_segment s" using 4(2) by blast
  qed
qed

lemma canonical_key_no_dotdot:
  assumes "canonical_key k" shows "''..'' \<notin> set (split_slash k)"
proof
  assume "''..'' \<in> set (split_slash k)"
  then have "''..'' = [] \<or> ''..'' = ''.'' \<or> regular_segment ''..''"
    using canonical_key_split[OF assms] by blast
  then show False by (simp add: regular_segment_def)
qed

lemma canonical_key_no_leading_slash:
  assumes "canonical_key k" shows "k = [] \<or> hd k \<noteq> slash"
  using assms
proof (cases rule: canonical_key_cases)
  case (4 rest t)
  then show ?thesis using join_slash_hd[of rest t] by simp
qed simp_all

lemma regular_segment_no_backslash: "regular_segment s \<Longrightarrow> backslash \<notin> set s"
  by (simp add: regular_segment_def)

lemma canonical_key_no_backslash:
  assumes "canonical_key k" shows "backslash \<notin> set k"
  using assms
proof (cases rule: canonical_key_cases)
  case (4 rest t)
  have "\<forall>s\<in>set (rest @ t). backslash \<notin> set s"
  proof
    fix s assume "s \<in> set (rest @ t)"
    then have "s \<in> set rest \<or> s = []" using 4(3) by auto
    then show "backslash \<notin> set s" using 4(2) regular_segment_no_backslash by auto
  qed
  then have "backslash \<notin> \<Union> (set ` set (rest @ t))" by blast
  moreover have "backslash \<noteq> slash" by simp
  ultimately have "backslash \<notin> \<Union> (set ` set (rest @ t)) \<union> {slash}" by blast
  then show ?thesis using set_join_slash[of "rest @ t"] 4(4) by blast
qed simp_all

lemma resolve_from_no_dotdot: "''..'' \<notin> set segs \<Longrightarrow> resolve_from dir segs \<noteq> None"
  by (induction segs arbitrary: dir) auto

lemma join_slash_nonempty: "seg \<noteq> [] \<Longrightarrow> join_slash (seg # segs) \<noteq> []"
  by (cases segs) auto

lemma last_join_slash:
  "segs \<noteq> [] \<Longrightarrow> \<forall>s\<in>set segs. s \<noteq> [] \<Longrightarrow> last (join_slash segs) = last (last segs)"
proof (induction segs rule: join_slash.induct)
  case (3 seg v va)
  then have "join_slash (v # va) \<noteq> []" by (intro join_slash_nonempty) simp
  then show ?case using 3 by simp
qed auto

lemma canonical_key_fixed:
  assumes "canonical_key k" shows "normalizeKey k = k"
proof -
  show ?thesis using assms
  proof (cases rule: canonical_key_cases)
    case 1
    then show ?thesis by (simp add: normalizeKey_def replace_backslashes_def)
  next
    case 2
    then show ?thesis
      by (simp add: normalizeKey_def replace_backslashes_def posix_normalize_def strip_dotdot_consts
          strip_leading_slashes_def)
  next
    case 3
    then show ?thesis
      by (simp add: normalizeKey_def replace_backslashes_def posix_normalize_def strip_dotdot_consts
          strip_leading_slashes_def)
  next
    case (4 rest t)
    have rb: "replace_backslashes k = k"
      using canonical_key_no_backslash[OF assms] by (rule replace_backslashes_id)
    have hd: "k \<noteq> []" "hd k \<noteq> slash" using join_slash_hd[OF 4(1,2), of t] 4(4) by auto
    have "\<forall>s\<in>set (rest @ t). slash \<notin> set s"
    proof
      fix s assume "s \<in> set (rest @ t)"
      then have "s \<in> set rest \<or> s = []" using 4(3) by auto
      then show "slash \<notin> set s" using 4(2) regular_segment_no_slash by auto
    qed
    then have sp: "split_slash k = rest @ t" using 4(1,4) split_join[of "rest @ t"] by simp
    have ns: "normalizeString True [] (rest @ t) = rest"
      using 4(3) normalizeString_regular[OF 4(2), of True "[]"]
      by (auto simp: normalizeString_append)
    have lastk: "(last k = slash) = (t = [[]])"
    proof (cases "t = []")
      case True
      have "last k = last (last rest)"
        using 4(1,2) last_join_slash[of rest] unfolding 4(4) True
        by (auto simp: regular_segment_def)
      moreover have "last rest \<in> set rest" using 4(1) by simp
      then have "regular_segment (last rest)" using 4(2) by blast
      then have "last (last rest) \<noteq> slash"
        unfolding regular_segment_def by (metis last_in_set)
      ultimately show ?thesis using True by simp
    next
      case False
      then have "t = [[]]" using 4(3) by simp
      then show ?thesis using 4 by (simp add: join_slash_snoc_empty)
    qed
    have jr: "join_slash rest \<noteq> []" using join_slash_hd[OF 4(1,2), of "[]"] by simp
    have "posix_normalize k = join_slash rest @ (if t = [[]] then ''/'' else [])"
      using hd sp ns lastk jr by (simp add: posix_normalize_def Let_def)
    also have "\<dots> = k" using 4 by (auto simp: join_slash_snoc_empty)
    finally have pn: "posix_normalize k = k" .
    have "strip_dotdot k = k"
      using strip_dotdot_join[OF 4(2,3), of 0] 4(4) by simp
    then show ?thesis using rb hd pn
      by (simp add: normalizeKey_def Let_def strip_leading_slashes_id)
  qed
qed


text \<open>
  Claim C1. For every raw path, the key returned by \<open>normalizeKey\<close> does not begin
  with a slash, has no \<open>..\<close> segment and no backslash, and resolving it physically
  below the root never steps above the root.
\<close>

theorem normalizeKey_safe:
  "(normalizeKey x = [] \<or> hd (normalizeKey x) \<noteq> slash) \<and>
   ''..'' \<notin> set (split_slash (normalizeKey x)) \<and>
   backslash \<notin> set (normalizeKey x) \<and>
   \<not> escapes_root (normalizeKey x)"
  using normalizeKey_canonical[of x]
  by (simp add: canonical_key_no_dotdot canonical_key_no_leading_slash canonical_key_no_backslash
      escapes_root_def resolve_from_no_dotdot)

lemma normalizeKey_etc_passwd: "normalizeKey ''../../etc/passwd'' = ''etc/passwd''"
  by (simp add: normalizeKey_def replace_backslashes_def posix_normalize_def
      strip_dotdot.simps strip_leading_slashes_def)

theorem normalizeKey_safe_witness:
  "escapes_root ''../../etc/passwd'' \<and>
   normalizeKey ''../../etc/passwd'' = ''etc/passwd'' \<and>
   ''..'' \<notin> set (split_slash (normalizeKey ''../../etc/passwd'')) \<and>
   \<not> escapes_root (normalizeKey ''../../etc/passwd'')"
  using normalizeKey_safe[of "''../../etc/passwd''"] normalizeKey_etc_passwd
  by (simp add: escapes_root_def)

text \<open>Claim C8. \<open>normalizeKey\<close> is idempotent.\<close>

theorem normalizeKey_idempotent: "normalizeKey (normalizeKey x) = normalizeKey x"
  by (rule canonical_key_fixed) (rule normalizeKey_canonical)


lemma normalizeKey_docs: "normalizeKey ''/docs//a/../b/'' = ''docs/b/''"
  by (simp add: normalizeKey_def replace_backslashes_def posix_normalize_def
      strip_dotdot.simps strip_leading_slashes_def)

theorem normalizeKey_idempotent_witness:
  "normalizeKey ''/docs//a/../b/'' = ''docs/b/'' \<and> normalizeKey ''docs/b/'' = ''docs/b/''"
  using normalizeKey_idempotent[of "''/docs//a/../b/''"] normalizeKey_docs by simp


section \<open>Listing one level of the tree\<close>

lemma regex_special_backslash: "regex_special backslash"
  by (simp add: regex_special_def)

lemma literal_pattern_escapeRegex: "literal_pattern (escapeRegex p) = Some p"
proof (induction p)
  case Nil
  then show ?case by (simp add: escapeRegex_def)
next
  case (Cons c cs)
  have e: "escapeRegex (c # cs) = (if regex_special c then [backslash, c] else [c]) @ escapeRegex cs"
    by (simp add: escapeRegex_def)
  show ?case
  proof (cases "regex_special c")
    case True
    then show ?thesis using Cons e by simp
  next
    case False
    then have nb: "c \<noteq> backslash" using regex_special_backslash by auto
    show ?thesis
    proof (cases "escapeRegex cs")
      case Nil
      then show ?thesis using Cons e False by simp
    next
      case (Cons q ps)
      then show ?thesis using Cons.IH e False nb by simp
    qed
  qed
qed

lemma anchored_literal_escapeRegex: "anchored_literal (CHR ''^'' # escapeRegex p) = Some p"
  by (simp add: anchored_literal_def literal_pattern_escapeRegex)

lemma startsWith_iff: "startsWith k p \<longleftrightarrow> (\<exists>rest. k = p @ rest)"
  unfolding startsWith_def
  by (metis append_eq_conv_conj append_take_drop_id)

lemma keep_entry_direct_child: "keep_entry prefix file \<longleftrightarrow> direct_child prefix (filePath file)"
proof (cases "startsWith (filePath file) prefix")
  case False
  then show ?thesis by (auto simp: keep_entry_def direct_child_def startsWith_iff)
next
  case True
  then obtain rest where k: "filePath file = prefix @ rest" by (auto simp: startsWith_iff)
  have c: "count_list rest slash = length (filter (\<lambda>c. c = slash) rest)"
    by (induction rest) auto
  have z: "length (filter (\<lambda>c. c = slash) rest) = 0 \<longleftrightarrow> slash \<notin> set rest"
    by (induction rest) auto
  have "keep_entry prefix file \<longleftrightarrow>
      rest \<noteq> [] \<and> (slash \<notin> set rest \<or> (count_list rest slash = 1 \<and> last rest = slash))"
    using True k c z by (auto simp: keep_entry_def Let_def endsWith_slash_def)
  then show ?thesis unfolding direct_child_def using k by auto
qed

lemma list_handler_ok:
  assumes "\<forall>t. db_fault sv t = None"
  shows "list_handler sv prefixParam w =
    (Ok200 (map (to_entry sv)
       (filter (keep_entry (normalizeKey (if truthy prefixParam then the prefixParam else [])))
         (sort_key filePath
            (filter (\<lambda>d. startsWith (filePath d) (normalizeKey (if truthy prefixParam then the prefixParam else [])))
               (files w))))),
     w\<lparr>trace := trace w @ [GetCollections,
        FilesFind (''^'' @ escapeRegex (normalizeKey (if truthy prefixParam then the prefixParam else [])))]\<rparr>)"
  using assms
  by (simp add: list_handler_def Let_def await_def getCollections_def db_call_def files_find_sorted_def
      files_find_def anchored_literal_escapeRegex)

lemma listed_rows:
  "mset (filter (keep_entry p) (sort_key filePath (filter (\<lambda>d. startsWith (filePath d) p) ds))) =
     filter_mset (\<lambda>d. direct_child p (filePath d)) (mset ds) \<and>
   sorted (map filePath (filter (keep_entry p) (sort_key filePath (filter (\<lambda>d. startsWith (filePath d) p) ds))))"
proof -
  have dc: "direct_child p k \<Longrightarrow> startsWith k p" for k
    by (auto simp: direct_child_def startsWith_iff)
  have "mset (filter (keep_entry p) (sort_key filePath (filter (\<lambda>d. startsWith (filePath d) p) ds))) =
      filter_mset (keep_entry p) (filter_mset (\<lambda>d. startsWith (filePath d) p) (mset ds))"
    by simp
  also have "\<dots> = filter_mset (\<lambda>d. startsWith (filePath d) p \<and> keep_entry p d) (mset ds)"
    by (simp only: filter_filter_mset)
  also have "\<dots> = filter_mset (\<lambda>d. direct_child p (filePath d)) (mset ds)"
    by (rule filter_mset_cong) (auto simp: keep_entry_direct_child dest: dc)
  finally show ?thesis by (simp add: sorted_filter)
qed

text \<open>
  Claim C2. For every catalog and every prefix that \<open>normalizeKey\<close> yields, the list
  operation (the database being available) returns exactly the records whose
  \<open>filePath\<close> starts with the prefix and whose remainder is not empty and has no
  slash, or exactly one slash as its last character, in ascending order of key; the
  catalog is left as it is.
\<close>

theorem list_handler_direct_children:
  assumes "\<forall>t. db_fault sv t = None"
  shows "\<exists>rows. fst (list_handler sv prefixParam w) = Ok200 (map (to_entry sv) rows) \<and>
     mset rows = filter_mset
        (\<lambda>d. direct_child (normalizeKey (if truthy prefixParam then the prefixParam else [])) (filePath d))
        (mset (files w)) \<and>
     sorted (map filePath rows) \<and>
     files (snd (list_handler sv prefixParam w)) = files w"
  using list_handler_ok[OF assms, of prefixParam w]
    listed_rows[of "normalizeKey (if truthy prefixParam then the prefixParam else [])" "files w"]
  by (metis (no_types, lifting) fst_conv snd_conv world.select_convs(2) world.surjective world.update_convs(4))

lemma list_sample_reports:
  "fst (list_handler sample_services (Some ''reports/'') sample_world) =
   Ok200 [\<lparr>entry_key = ''reports/q1.pdf'', entry_size = 5, entry_lastModified = 1600\<rparr>,
          \<lparr>entry_key = ''reports/sub/'', entry_size = 0, entry_lastModified = 1600\<rparr>]"
  by code_simp

theorem list_handler_direct_children_witness:
  "(\<forall>t. db_fault sample_services t = None) \<and>
   fst (list_handler sample_services (Some ''reports/'') sample_world) =
     Ok200 [\<lparr>entry_key = ''reports/q1.pdf'', entry_size = 5, entry_lastModified = 1600\<rparr>,
            \<lparr>entry_key = ''reports/sub/'', entry_size = 0, entry_lastModified = 1600\<rparr>] \<and>
   (\<exists>rows. fst (list_handler sample_services (Some ''reports/'') sample_world) =
       Ok200 (map (to_entry sample_services) rows) \<and>
     sorted (map filePath rows))"
proof -
  have h: "\<forall>t. db_fault sample_services t = None" by (simp add: sample_services_def)
  from list_handler_direct_children[OF h, of "Some ''reports/''" sample_world]
  have "\<exists>rows. fst (list_handler sample_services (Some ''reports/'') sample_world) =
       Ok200 (map (to_entry sample_services) rows) \<and> sorted (map filePath rows)"
    by blast
  then show ?thesis using h list_sample_reports by blast
qed

section \<open>The walk over the pages of a prefix\<close>

lemma truthy_None [simp]: "\<not> truthy None"
  by (simp add: truthy_def)

lemma list_requests_append: "list_requests (xs @ ys) = list_requests xs @ list_requests ys"
  by (induction xs rule: list_requests.induct) auto

lemma new_events_append: "trace w' = trace w @ evs \<Longrightarrow> new_events w w' = evs"
  by (simp add: new_events_def)

lemma s3_send_scripted_list:
  "send sv = scripted pages \<Longrightarrow>
   s3_send sv (ListObjectsV2Command p tok) w =
     (Inr (pages (bucket w)),
      w\<lparr>bucket := Suc (bucket w), trace := trace w @ [S3Send (ListObjectsV2Command p tok) True]\<rparr>)"
  by (simp add: s3_send_def scripted_def)

lemma s3_send_scripted_delete:
  "send sv = scripted pages \<Longrightarrow>
   s3_send sv (DeleteObjectsCommand ks) w =
     (Inr no_output, w\<lparr>bucket := bucket w, trace := trace w @ [S3Send (DeleteObjectsCommand ks) True]\<rparr>)"
  by (simp add: s3_send_def scripted_def)

lemma copyS3Object_scripted:
  "send sv = scripted pages \<Longrightarrow> configured sv \<Longrightarrow>
   copyS3Object sv a b w =
     (Inr (), w\<lparr>bucket := bucket w, trace := trace w @
        [S3Send (CopyObjectCommand (AWS_S3_BUCKET sv @ ''/'' @ buildKey sv a) (buildKey sv b)) True]\<rparr>)"
  by (simp add: copyS3Object_def await_def ensureS3Configured_def done_io_def s3_send_def scripted_def)

lemma copy_items_scripted:
  assumes "send sv = scripted pages" "configured sv"
  shows "\<exists>w' evs. copy_items sv sp dp items w = (Inr (), w') \<and> bucket w' = bucket w \<and>
     files w' = files w \<and> trace w' = trace w @ evs \<and> list_requests evs = []"
proof (induction items arbitrary: w)
  case Nil
  then show ?case by simp
next
  case (Cons item items)
  show ?case
  proof (cases "truthy item")
    case False
    then show ?thesis using Cons[of w] by simp
  next
    case True
    let ?e = "S3Send (CopyObjectCommand (AWS_S3_BUCKET sv @ ''/'' @
        buildKey sv (sp @ remove_first (buildKey sv sp) (the item)))
        (buildKey sv (dp @ remove_first (buildKey sv sp) (the item)))) True"
    let ?w1 = "w\<lparr>bucket := bucket w, trace := trace w @ [?e]\<rparr>"
    obtain w' evs where r: "copy_items sv sp dp items ?w1 = (Inr (), w')" "bucket w' = bucket ?w1"
      "files w' = files ?w1" "trace w' = trace ?w1 @ evs" "list_requests evs = []"
      using Cons[of ?w1] by blast
    have "copy_items sv sp dp (item # items) w = (Inr (), w')"
      using True r(1) copyS3Object_scripted[OF assms] by simp
    moreover have "trace w' = trace w @ (?e # evs)" using r(4) by simp
    moreover have "list_requests (?e # evs) = []" using r(5) by simp
    ultimately show ?thesis using r(2,3)
      by (intro exI[of _ w'] exI[of _ "?e # evs"]) simp
  qed
qed

lemma deleteS3Prefix_loop_scripted:
  assumes "send sv = scripted pages" "\<not> IsTruncated (pages n)"
  shows "bucket w + d = n \<Longrightarrow>
     (\<forall>i. bucket w \<le> i \<and> i < n \<longrightarrow> IsTruncated (pages i) \<and> truthy (NextContinuationToken (pages i))) \<Longrightarrow>
     \<exists>w' evs. deleteS3Prefix_loop sv prefix tok w = Some (Inr (), w') \<and> bucket w' = Suc n \<and>
       files w' = files w \<and> trace w' = trace w @ evs \<and>
       list_requests evs = (buildKey sv prefix, tok) #
         map (\<lambda>i. (buildKey sv prefix, NextContinuationToken (pages i))) [bucket w..<n]"
proof (induction d arbitrary: w tok)
  case 0
  then have k: "bucket w = n" by simp
  let ?l = "S3Send (ListObjectsV2Command (buildKey sv prefix) tok) True"
  let ?w1 = "w\<lparr>bucket := Suc (bucket w), trace := trace w @ [?l]\<rparr>"
  let ?ks = "truthy_keys (Contents (pages n))"
  let ?w2 = "if ?ks \<noteq> [] then ?w1\<lparr>bucket := bucket ?w1, trace := trace ?w1 @ [S3Send (DeleteObjectsCommand ?ks) True]\<rparr> else ?w1"
  have "deleteS3Prefix_loop sv prefix tok w = Some (Inr (), ?w2)"
    by (subst deleteS3Prefix_loop.simps)
      (simp add: s3_send_scripted_list[OF assms(1)] s3_send_scripted_delete[OF assms(1)] k assms(2))
  moreover have "bucket ?w2 = Suc n" "files ?w2 = files w" using k by auto
  moreover have "trace ?w2 = trace w @ (?l # (if ?ks \<noteq> [] then [S3Send (DeleteObjectsCommand ?ks) True] else []))"
    by simp
  moreover have "list_requests (?l # (if ?ks \<noteq> [] then [S3Send (DeleteObjectsCommand ?ks) True] else [])) =
      (buildKey sv prefix, tok) # map (\<lambda>i. (buildKey sv prefix, NextContinuationToken (pages i))) [bucket w..<n]"
    using k by simp
  ultimately show ?case
    by (intro exI[of _ ?w2] exI[of _ "?l # (if ?ks \<noteq> [] then [S3Send (DeleteObjectsCommand ?ks) True] else [])"] conjI)
next
  case (Suc d)
  let ?k = "bucket w"
  have kn: "?k < n" using Suc.prems by simp
  then have tr: "IsTruncated (pages ?k)" "truthy (NextContinuationToken (pages ?k))"
    using Suc.prems(2) by auto
  let ?l = "S3Send (ListObjectsV2Command (buildKey sv prefix) tok) True"
  let ?w1 = "w\<lparr>bucket := Suc (bucket w), trace := trace w @ [?l]\<rparr>"
  let ?ks = "truthy_keys (Contents (pages ?k))"
  let ?dl = "if ?ks \<noteq> [] then [S3Send (DeleteObjectsCommand ?ks) True] else []"
  let ?w2 = "if ?ks \<noteq> [] then ?w1\<lparr>bucket := bucket ?w1, trace := trace ?w1 @ [S3Send (DeleteObjectsCommand ?ks) True]\<rparr> else ?w1"
  have b2: "bucket ?w2 = Suc ?k" "files ?w2 = files w" "trace ?w2 = trace w @ (?l # ?dl)" by auto
  have step: "deleteS3Prefix_loop sv prefix tok w =
      deleteS3Prefix_loop sv prefix (NextContinuationToken (pages ?k)) ?w2"
    by (subst deleteS3Prefix_loop.simps)
      (simp add: s3_send_scripted_list[OF assms(1)] s3_send_scripted_delete[OF assms(1)] tr)
  have "bucket ?w2 + d = n" using Suc.prems(1) b2(1) by simp
  moreover have "\<forall>i. bucket ?w2 \<le> i \<and> i < n \<longrightarrow> IsTruncated (pages i) \<and> truthy (NextContinuationToken (pages i))"
    using Suc.prems(2) b2(1) by auto
  ultimately obtain w' evs where r:
    "deleteS3Prefix_loop sv prefix (NextContinuationToken (pages ?k)) ?w2 = Some (Inr (), w')"
    "bucket w' = Suc n" "files w' = files ?w2" "trace w' = trace ?w2 @ evs"
    "list_requests evs = (buildKey sv prefix, NextContinuationToken (pages ?k)) #
         map (\<lambda>i. (buildKey sv prefix, NextContinuationToken (pages i))) [bucket ?w2..<n]"
    using Suc.IH[of ?w2 "NextContinuationToken (pages ?k)"] by blast
  have t: "trace w' = trace w @ ((?l # ?dl) @ evs)" using r(4) b2(3) by simp
  have "list_requests ((?l # ?dl) @ evs) = (buildKey sv prefix, tok) # list_requests evs"
    by (simp add: list_requests_append)
  also have "\<dots> = (buildKey sv prefix, tok) #
      map (\<lambda>i. (buildKey sv prefix, NextContinuationToken (pages i))) [?k..<n]"
    using r(5) b2(1) kn by (simp add: upt_conv_Cons)
  finally have lr: "list_requests ((?l # ?dl) @ evs) = (buildKey sv prefix, tok) #
      map (\<lambda>i. (buildKey sv prefix, NextContinuationToken (pages i))) [?k..<n]" .
  show ?case
    apply (rule exI[of _ w'], rule exI[of _ "(?l # ?dl) @ evs"])
    using step r(1,2,3) b2(2) t lr apply (simp only:)
    done
qed


lemma copyS3Prefix_loop_scripted:
  assumes "send sv = scripted pages" "configured sv" "\<not> IsTruncated (pages n)"
  shows "bucket w + d = n \<Longrightarrow>
     (\<forall>i. bucket w \<le> i \<and> i < n \<longrightarrow> IsTruncated (pages i) \<and> truthy (NextContinuationToken (pages i))) \<Longrightarrow>
     \<exists>w' evs. copyS3Prefix_loop sv sp dp tok w = Some (Inr (), w') \<and> bucket w' = Suc n \<and>
       files w' = files w \<and> trace w' = trace w @ evs \<and>
       list_requests evs = (buildKey sv sp, tok) #
         map (\<lambda>i. (buildKey sv sp, NextContinuationToken (pages i))) [bucket w..<n]"
proof (induction d arbitrary: w tok)
  case 0
  then have k: "bucket w = n" by simp
  let ?l = "S3Send (ListObjectsV2Command (buildKey sv sp) tok) True"
  let ?w1 = "w\<lparr>bucket := Suc (bucket w), trace := trace w @ [?l]\<rparr>"
  obtain w2 cs where c: "copy_items sv sp dp (Contents (pages n)) ?w1 = (Inr (), w2)"
    "bucket w2 = bucket ?w1" "files w2 = files ?w1" "trace w2 = trace ?w1 @ cs" "list_requests cs = []"
    using copy_items_scripted[OF assms(1,2), of sp dp "Contents (pages n)" ?w1] by blast
  have "copyS3Prefix_loop sv sp dp tok w = Some (Inr (), w2)"
    using c(1)
    by (subst copyS3Prefix_loop.simps)
      (simp add: s3_send_scripted_list[OF assms(1)] k assms(3))
  moreover have "bucket w2 = Suc n" "files w2 = files w" "trace w2 = trace w @ (?l # cs)"
    using k c(2,3,4) by auto
  moreover have "list_requests (?l # cs) =
      (buildKey sv sp, tok) # map (\<lambda>i. (buildKey sv sp, NextContinuationToken (pages i))) [bucket w..<n]"
    using k c(5) by simp
  ultimately show ?case
    by (intro exI[of _ w2] exI[of _ "?l # cs"] conjI)
next
  case (Suc d)
  let ?k = "bucket w"
  have kn: "?k < n" using Suc.prems by simp
  then have tr: "IsTruncated (pages ?k)" "truthy (NextContinuationToken (pages ?k))"
    using Suc.prems(2) by auto
  let ?l = "S3Send (ListObjectsV2Command (buildKey sv sp) tok) True"
  let ?w1 = "w\<lparr>bucket := Suc (bucket w), trace := trace w @ [?l]\<rparr>"
  obtain w2 cs where c: "copy_items sv sp dp (Contents (pages ?k)) ?w1 = (Inr (), w2)"
    "bucket w2 = bucket ?w1" "files w2 = files ?w1" "trace w2 = trace ?w1 @ cs" "list_requests cs = []"
    using copy_items_scripted[OF assms(1,2), of sp dp "Contents (pages ?k)" ?w1] by blast
  have b2: "bucket w2 = Suc ?k" "files w2 = files w" "trace w2 = trace w @ (?l # cs)"
    using c(2,3,4) by auto
  have step: "copyS3Prefix_loop sv sp dp tok w =
      copyS3Prefix_loop sv sp dp (NextContinuationToken (pages ?k)) w2"
    using c(1)
    by (subst copyS3Prefix_loop.simps)
      (simp add: s3_send_scripted_list[OF assms(1)] tr)
  have "bucket w2 + d = n" using Suc.prems(1) b2(1) by simp
  moreover have "\<forall>i. bucket w2 \<le> i \<and> i < n \<longrightarrow> IsTruncated (pages i) \<and> truthy (NextContinuationToken (pages i))"
    using Suc.prems(2) b2(1) by auto
  ultimately obtain w' evs where r:
    "copyS3Prefix_loop sv sp dp (NextContinuationToken (pages ?k)) w2 = Some (Inr (), w')"
    "bucket w' = Suc n" "files w' = files w2" "trace w' = trace w2 @ evs"
    "list_requests evs = (buildKey sv sp, NextContinuationToken (pages ?k)) #
         map (\<lambda>i. (buildKey sv sp, NextContinuationToken (pages i))) [bucket w2..<n]"
    using Suc.IH[of w2 "NextContinuationToken (pages ?k)"] by blast
  have t: "trace w' = trace w @ ((?l # cs) @ evs)" using r(4) b2(3) by simp
  have "list_requests ((?l # cs) @ evs) = (buildKey sv sp, tok) # list_requests evs"
    using c(5) by (simp add: list_requests_append)
  also have "\<dots> = (buildKey sv sp, tok) #
      map (\<lambda>i. (buildKey sv sp, NextContinuationToken (pages i))) [?k..<n]"
    using r(5) b2(1) kn by (simp add: upt_conv_Cons)
  finally have lr: "list_requests ((?l # cs) @ evs) = (buildKey sv sp, tok) #
      map (\<lambda>i. (buildKey sv sp, NextContinuationToken (pages i))) [?k..<n]" .
  show ?case
    apply (rule exI[of _ w'], rule exI[of _ "(?l # cs) @ evs"])
    using step r(1,2,3) b2(2) t lr apply (simp only:)
    done
qed

text \<open>
  Claim C9. When the store answers the list requests with a sequence of pages of which
  page \<open>n\<close> is the first that is not truncated, the truncated pages before it
  carrying their continuation token, the walks of \<open>deleteS3Prefix\<close> and
  \<open>copyS3Prefix\<close> terminate after \<open>n + 1\<close> list requests: the first without a
  token, each later one with the token of the page before it.
\<close>

theorem prefix_walk_pages:
  assumes "send sv = scripted pages" "configured sv" "bucket w = 0"
    and "\<not> IsTruncated (pages n)"
    and "\<forall>i<n. IsTruncated (pages i) \<and> truthy (NextContinuationToken (pages i))"
  shows "(\<exists>w'. deleteS3Prefix sv prefix w = Some (Inr (), w') \<and> bucket w' = Suc n \<and>
            list_requests (new_events w w') =
              (buildKey sv prefix, None) #
              map (\<lambda>i. (buildKey sv prefix, NextContinuationToken (pages i))) [0..<n]) \<and>
         (\<exists>w'. copyS3Prefix sv prefix dest w = Some (Inr (), w') \<and> bucket w' = Suc n \<and>
            list_requests (new_events w w') =
              (buildKey sv prefix, None) #
              map (\<lambda>i. (buildKey sv prefix, NextContinuationToken (pages i))) [0..<n])"
proof -
  have pre: "bucket w + n = n"
    "\<forall>i. bucket w \<le> i \<and> i < n \<longrightarrow> IsTruncated (pages i) \<and> truthy (NextContinuationToken (pages i))"
    using assms(3,5) by auto
  obtain w1 evs1 where d: "deleteS3Prefix_loop sv prefix None w = Some (Inr (), w1)"
    "bucket w1 = Suc n" "trace w1 = trace w @ evs1"
    "list_requests evs1 = (buildKey sv prefix, None) #
       map (\<lambda>i. (buildKey sv prefix, NextContinuationToken (pages i))) [bucket w..<n]"
    using deleteS3Prefix_loop_scripted[OF assms(1,4) pre, of prefix None] by blast
  obtain w2 evs2 where c: "copyS3Prefix_loop sv prefix dest None w = Some (Inr (), w2)"
    "bucket w2 = Suc n" "trace w2 = trace w @ evs2"
    "list_requests evs2 = (buildKey sv prefix, None) #
       map (\<lambda>i. (buildKey sv prefix, NextContinuationToken (pages i))) [bucket w..<n]"
    using copyS3Prefix_loop_scripted[OF assms(1,2,4) pre, of prefix dest None] by blast
  have "deleteS3Prefix sv prefix w = Some (Inr (), w1)"
    using d(1) assms(2) by (simp add: deleteS3Prefix_def ensureS3Configured_def)
  moreover have "copyS3Prefix sv prefix dest w = Some (Inr (), w2)"
    using c(1) assms(2) by (simp add: copyS3Prefix_def ensureS3Configured_def)
  ultimately show ?thesis
    using d(2,4) c(2,4) new_events_append[OF d(3)] new_events_append[OF c(3)] assms(3)
    by simp
qed


lemma walk_two_pages:
  "map_option (\<lambda>(r, w'). (r, bucket w', list_requests (new_events scripted_world w')))
     (deleteS3Prefix scripted_services ''a/'' scripted_world) =
   Some (Inr (), 2, [(''uploads/a/'', None), (''uploads/a/'', Some ''t1'')])"
  by code_simp

theorem prefix_walk_pages_witness:
  "IsTruncated (two_pages 0) \<and> truthy (NextContinuationToken (two_pages 0)) \<and>
   \<not> IsTruncated (two_pages 1) \<and>
   (\<exists>w'. deleteS3Prefix scripted_services ''a/'' scripted_world = Some (Inr (), w') \<and>
      bucket w' = 2 \<and>
      list_requests (new_events scripted_world w') =
        [(''uploads/a/'', None), (''uploads/a/'', Some ''t1'')])"
proof -
  have h: "send scripted_services = scripted two_pages" "configured scripted_services"
    "bucket scripted_world = 0" "\<not> IsTruncated (two_pages 1)"
    "\<forall>i<1. IsTruncated (two_pages i) \<and> truthy (NextContinuationToken (two_pages i))"
    by (simp_all add: scripted_services_def scripted_world_def two_pages_def truthy_def)
  have b: "buildKey scripted_services ''a/'' = ''uploads/a/''"
    by (simp add: buildKey_def basePrefix_def normalizePrefix_def scripted_services_def)
  from prefix_walk_pages[OF h, of "''a/''" "''b/''"]
  have "\<exists>w'. deleteS3Prefix scripted_services ''a/'' scripted_world = Some (Inr (), w') \<and>
      bucket w' = 2 \<and>
      list_requests (new_events scripted_world w') =
        [(''uploads/a/'', None), (''uploads/a/'', Some ''t1'')]"
    by (simp add: b two_pages_def numeral_2_eq_2)
  then show ?thesis using h by simp
qed


section \<open>Deleting a prefix\<close>

lemma bucket_keys_props:
  "sorted (bucket_keys b)" "distinct (bucket_keys b)" "set (bucket_keys b) = fst ` set b"
  by (simp_all add: bucket_keys_def)

lemma bucket_keys_filter:
  "bucket_keys (filter (\<lambda>kv. Q (fst kv)) b) = filter Q (bucket_keys b)"
proof -
  have "map fst (filter (\<lambda>kv. Q (fst kv)) b) = filter Q (map fst b)"
    by (induction b) auto
  then show ?thesis
    by (simp add: bucket_keys_def remdups_filter filter_sort)
qed

lemma distinct_filter_take:
  "distinct xs \<Longrightarrow> filter (\<lambda>x. x \<notin> set (take m xs)) xs = drop m xs"
proof (induction xs arbitrary: m)
  case Nil
  then show ?case by simp
next
  case (Cons x xs)
  show ?case
  proof (cases m)
    case 0
    then show ?thesis by simp
  next
    case (Suc j)
    have "filter (\<lambda>y. y \<noteq> x \<and> y \<notin> set (take j xs)) xs = filter (\<lambda>y. y \<notin> set (take j xs)) xs"
      using Cons.prems by (intro filter_cong) auto
    then show ?thesis using Suc Cons by simp
  qed
qed

lemma sorted_distinct_drop_gt:
  fixes xs :: "'a::linorder list"
  assumes "sorted xs" "distinct xs" "0 < m" "m < length xs" "k \<in> set (drop m xs)"
  shows "last (take m xs) < k"
proof -
  have s: "sorted_wrt (<) (take m xs @ drop m xs)"
    using assms(1,2) by (simp add: strict_sorted_iff)
  have "take m xs \<noteq> []" using assms(3,4) by auto
  then have "last (take m xs) \<in> set (take m xs)" by simp
  then show ?thesis using s assms(5) unfolding sorted_wrt_append by blast
qed

lemma token_of_truthy: "truthy (Some (token_of k))"
  by (simp add: truthy_def token_of_def)

lemma truthy_keys_Some: "[] \<notin> set ks \<Longrightarrow> truthy_keys (map Some ks) = ks"
  by (induction ks) (auto simp: truthy_keys_def truthy_def)

lemma s3_send_model_list:
  "send sv = s3_model m bn \<Longrightarrow>
   s3_send sv (ListObjectsV2Command p tok) w =
     (Inr (list_page m p tok (bucket w)),
      w\<lparr>trace := trace w @ [S3Send (ListObjectsV2Command p tok) True]\<rparr>)"
  by (simp add: s3_send_def s3_model_def)

lemma s3_send_model_delete_many:
  "send sv = s3_model m bn \<Longrightarrow>
   s3_send sv (DeleteObjectsCommand ks) w =
     (Inr no_output,
      w\<lparr>bucket := filter (\<lambda>kv. fst kv \<notin> set ks) (bucket w),
        trace := trace w @ [S3Send (DeleteObjectsCommand ks) True]\<rparr>)"
  by (simp add: s3_send_def s3_model_def)


lemma startsWith_Nil: "startsWith [] p \<longleftrightarrow> p = []"
  by (auto simp: startsWith_def)

lemma deleteS3Prefix_loop_step:
  assumes sv: "send sv = s3_model m bn" and m: "0 < m" and P: "buildKey sv prefix \<noteq> []"
    and inv: "\<forall>k\<in>set (bucket_keys (bucket w)). startsWith k (buildKey sv prefix) \<longrightarrow> after_token tok k"
  defines "L \<equiv> filter (\<lambda>k. startsWith k (buildKey sv prefix)) (bucket_keys (bucket w))"
  defines "w1 \<equiv> w\<lparr>trace := trace w @ [S3Send (ListObjectsV2Command (buildKey sv prefix) tok) True]\<rparr>"
  defines "w2 \<equiv> (if take m L \<noteq> []
      then w1\<lparr>bucket := filter (\<lambda>kv. fst kv \<notin> set (take m L)) (bucket w1),
              trace := trace w1 @ [S3Send (DeleteObjectsCommand (take m L)) True]\<rparr>
      else w1)"
  shows "deleteS3Prefix_loop sv prefix tok w =
     (if m < length L then deleteS3Prefix_loop sv prefix (Some (token_of (last (take m L)))) w2
      else Some (Inr (), w2))"
proof -
  have ks: "filter (\<lambda>k. startsWith k (buildKey sv prefix) \<and> after_token tok k) (bucket_keys (bucket w)) = L"
    unfolding L_def using inv by (intro filter_cong) auto
  have neL: "[] \<notin> set L" using P by (simp add: L_def startsWith_Nil)
  then have ne: "[] \<notin> set (take m L)" using in_set_takeD by fastforce
  have pne: "m < length L \<Longrightarrow> take m L \<noteq> []" using m by auto
  have lp: "list_page m (buildKey sv prefix) tok (bucket w) =
      \<lparr>Contents = map Some (take m L), IsTruncated = (m < length L),
       NextContinuationToken = (if m < length L then Some (token_of (last (take m L))) else None)\<rparr>"
    using pne by (simp add: list_page_def Let_def ks)
  show ?thesis
    by (subst deleteS3Prefix_loop.simps)
      (simp add: s3_send_model_list[OF sv] s3_send_model_delete_many[OF sv] lp
        truthy_keys_Some[OF ne] truthy_keys_Some[OF neL] token_of_truthy w1_def w2_def)
qed

lemma deleteS3Prefix_loop_model:
  assumes sv: "send sv = s3_model m bn" and m: "0 < m" and P: "buildKey sv prefix \<noteq> []"
  shows "(\<forall>k\<in>set (bucket_keys (bucket w)). startsWith k (buildKey sv prefix) \<longrightarrow> after_token tok k) \<Longrightarrow>
     \<exists>w' evs. deleteS3Prefix_loop sv prefix tok w = Some (Inr (), w') \<and>
        bucket w' = filter (\<lambda>kv. \<not> startsWith (fst kv) (buildKey sv prefix)) (bucket w) \<and>
        files w' = files w \<and> logs w' = logs w \<and> trace w' = trace w @ evs \<and> evs \<noteq> [] \<and>
        (\<forall>e\<in>set evs. is_s3 e \<and> \<not> s3_failed e)"
proof (induction "length (filter (\<lambda>k. startsWith k (buildKey sv prefix)) (bucket_keys (bucket w)))"
    arbitrary: w tok rule: less_induct)
  case less
  let ?P = "buildKey sv prefix"
  define L where "L = filter (\<lambda>k. startsWith k ?P) (bucket_keys (bucket w))"
  define l where "l = S3Send (ListObjectsV2Command ?P tok) True"
  define dl where "dl = (if take m L \<noteq> [] then [S3Send (DeleteObjectsCommand (take m L)) True] else [])"
  define w1 where "w1 = w\<lparr>trace := trace w @ [l]\<rparr>"
  define w2 where "w2 = (if take m L \<noteq> []
      then w1\<lparr>bucket := filter (\<lambda>kv. fst kv \<notin> set (take m L)) (bucket w1),
              trace := trace w1 @ [S3Send (DeleteObjectsCommand (take m L)) True]\<rparr>
      else w1)"
  have step: "deleteS3Prefix_loop sv prefix tok w =
     (if m < length L then deleteS3Prefix_loop sv prefix (Some (token_of (last (take m L)))) w2
      else Some (Inr (), w2))"
    using deleteS3Prefix_loop_step[OF sv m P less.prems]
    unfolding L_def w1_def w2_def l_def by simp
  have b2: "bucket w2 = filter (\<lambda>kv. fst kv \<notin> set (take m L)) (bucket w)"
    by (simp add: w2_def w1_def)
  have f2: "files w2 = files w" "logs w2 = logs w" "trace w2 = trace w @ (l # dl)"
    by (simp_all add: w2_def w1_def dl_def)
  have ev2: "\<forall>e\<in>set (l # dl). is_s3 e \<and> \<not> s3_failed e"
    by (simp add: l_def dl_def)
  have sL: "sorted L" "distinct L" "set L = {k \<in> fst ` set (bucket w). startsWith k ?P}"
    unfolding L_def using bucket_keys_props[of "bucket w"] by (auto intro: sorted_wrt_filter)
  show ?case
  proof (cases "m < length L")
    case False
    then have "take m L = L" by simp
    then have "bucket w2 = filter (\<lambda>kv. \<not> startsWith (fst kv) ?P) (bucket w)"
      unfolding b2 using sL(3) by (intro filter_cong) auto
    then show ?thesis
      using step False f2 ev2
      by (intro exI[of _ w2] exI[of _ "l # dl"]) simp
  next
    case True
    let ?tok = "Some (token_of (last (take m L)))"
    have keys2: "filter (\<lambda>k. startsWith k ?P) (bucket_keys (bucket w2)) = drop m L"
    proof -
      have "bucket_keys (bucket w2) = filter (\<lambda>k. k \<notin> set (take m L)) (bucket_keys (bucket w))"
        unfolding b2 by (rule bucket_keys_filter)
      then have "filter (\<lambda>k. startsWith k ?P) (bucket_keys (bucket w2)) =
          filter (\<lambda>k. k \<notin> set (take m L)) L"
        unfolding L_def by (simp add: conj_commute)
      then show ?thesis using distinct_filter_take[OF sL(2)] by simp
    qed
    have smaller: "length (filter (\<lambda>k. startsWith k ?P) (bucket_keys (bucket w2))) <
        length (filter (\<lambda>k. startsWith k ?P) (bucket_keys (bucket w)))"
      unfolding keys2 using True m by (simp add: L_def)
    have inv2: "\<forall>k\<in>set (bucket_keys (bucket w2)). startsWith k ?P \<longrightarrow> after_token ?tok k"
    proof (intro ballI impI)
      fix k assume "k \<in> set (bucket_keys (bucket w2))" "startsWith k ?P"
      then have "k \<in> set (filter (\<lambda>k. startsWith k ?P) (bucket_keys (bucket w2)))" by simp
      then have "k \<in> set (drop m L)" unfolding keys2 .
      then have "last (take m L) < k"
        using sorted_distinct_drop_gt[OF sL(1,2) m True] by blast
      then show "after_token ?tok k" by (simp add: after_token_def token_of_def)
    qed
    obtain w' evs where r: "deleteS3Prefix_loop sv prefix ?tok w2 = Some (Inr (), w')"
      "bucket w' = filter (\<lambda>kv. \<not> startsWith (fst kv) ?P) (bucket w2)"
      "files w' = files w2" "logs w' = logs w2" "trace w' = trace w2 @ evs"
      "\<forall>e\<in>set evs. is_s3 e \<and> \<not> s3_failed e"
      using less.hyps[OF smaller inv2] by blast
    have "bucket w' = filter (\<lambda>kv. \<not> startsWith (fst kv) ?P) (bucket w)"
    proof -
      have "bucket w' = filter (\<lambda>kv. fst kv \<notin> set (take m L) \<and> \<not> startsWith (fst kv) ?P) (bucket w)"
        unfolding r(2) b2 by (simp add: conj_commute)
      also have "\<dots> = filter (\<lambda>kv. \<not> startsWith (fst kv) ?P) (bucket w)"
      proof (intro filter_cong refl)
        fix kv assume "kv \<in> set (bucket w)"
        have "fst kv \<in> set (take m L) \<Longrightarrow> startsWith (fst kv) ?P"
          using sL(3) in_set_takeD by fastforce
        then show "(fst kv \<notin> set (take m L) \<and> \<not> startsWith (fst kv) ?P) = (\<not> startsWith (fst kv) ?P)"
          by blast
      qed
      finally show ?thesis .
    qed
    moreover have "trace w' = trace w @ ((l # dl) @ evs)" using r(5) f2(3) by simp
    moreover have "\<forall>e\<in>set ((l # dl) @ evs). is_s3 e \<and> \<not> s3_failed e"
      using ev2 r(6) by auto
    ultimately show ?thesis
      using step True r(1,3,4) f2(1,2)
      by (intro exI[of _ w'] exI[of _ "(l # dl) @ evs"]) simp
  qed
qed


lemma endsWith_slash_nonempty: "endsWith_slash k \<Longrightarrow> k \<noteq> []"
  by (simp add: endsWith_slash_def)

lemma getCollections_ok:
  "\<forall>t. db_fault sv t = None \<Longrightarrow>
   getCollections sv w = (Inr (), w\<lparr>trace := trace w @ [GetCollections]\<rparr>)"
  by (simp add: getCollections_def db_call_def)

lemma files_deleteMany_ok:
  "\<forall>t. db_fault sv t = None \<Longrightarrow>
   files_deleteMany sv (CHR ''^'' # escapeRegex p) w =
     (Inr (), w\<lparr>trace := trace w @ [FilesDeleteMany (CHR ''^'' # escapeRegex p)],
               files := filter (\<lambda>d. \<not> startsWith (filePath d) p) (files w)\<rparr>)"
  by (simp add: files_deleteMany_def db_call_def anchored_literal_escapeRegex)

lemma logFileAction_ok:
  "\<forall>t. db_fault sv t = None \<Longrightarrow>
   \<exists>w'. logFileAction sv action path name user details w = (Inr (), w') \<and>
     bucket w' = bucket w \<and> files w' = files w"
  by (simp add: logFileAction_def await_def getCollections_def db_call_def Let_def)

text \<open>
  Claim C3. For every key ending in a slash, the delete operation (over the reference
  store, with the server configured and the database available) returns success and
  removes exactly the store keys and the catalog records that start with the prefix;
  in particular it succeeds when nothing matches.
\<close>

theorem delete_prefix_removes_all:
  assumes "send sv = s3_model m bn" "0 < m" "configured sv" "\<forall>t. db_fault sv t = None"
    and "endsWith_slash (normalizeKey (nullish keyParam))"
  shows "\<exists>w'. delete_handler sv user keyParam w = Some (Ok200 (), w') \<and>
     bucket w' = filter (\<lambda>kv. \<not> startsWith (fst kv) (buildKey sv (normalizeKey (nullish keyParam)))) (bucket w) \<and>
     files w' = filter (\<lambda>d. \<not> startsWith (filePath d) (normalizeKey (nullish keyParam))) (files w) \<and>
     (\<forall>kv\<in>set (bucket w'). \<not> startsWith (fst kv) (buildKey sv (normalizeKey (nullish keyParam)))) \<and>
     (\<forall>d\<in>set (files w'). \<not> startsWith (filePath d) (normalizeKey (nullish keyParam)))"
proof -
  define key where "key = normalizeKey (nullish keyParam)"
  have e: "endsWith_slash key" and ne: "key \<noteq> []"
    using assms(5) endsWith_slash_nonempty by (auto simp: key_def)
  have P: "buildKey sv key \<noteq> []" using ne by (simp add: buildKey_def)
  have inv: "\<forall>k\<in>set (bucket_keys (bucket w)). startsWith k (buildKey sv key) \<longrightarrow> after_token None k"
    by (simp add: after_token_def)
  obtain w1 where d: "deleteS3Prefix_loop sv key None w = Some (Inr (), w1)"
    "bucket w1 = filter (\<lambda>kv. \<not> startsWith (fst kv) (buildKey sv key)) (bucket w)"
    "files w1 = files w"
    using deleteS3Prefix_loop_model[OF assms(1,2) P inv] by blast
  have dp: "deleteS3Prefix sv key w = Some (Inr (), w1)"
    using d(1) assms(3) by (simp add: deleteS3Prefix_def ensureS3Configured_def)
  let ?w2 = "w1\<lparr>trace := trace w1 @ [GetCollections]\<rparr>"
  let ?w3 = "?w2\<lparr>trace := trace ?w2 @ [FilesDeleteMany (CHR ''^'' # escapeRegex key)],
               files := filter (\<lambda>d. \<not> startsWith (filePath d) key) (files ?w2)\<rparr>"
  obtain w' where l: "logFileAction sv ''folder_delete'' key (basename (strip_trailing_slash key)) user None ?w3 = (Inr (), w')"
    "bucket w' = bucket ?w3" "files w' = files ?w3"
    using logFileAction_ok[OF assms(4)] by blast
  have "delete_handler sv user keyParam w = Some (Ok200 (), w')"
    using e ne dp l(1)
    by (simp add: delete_handler_def key_def[symmetric] Let_def await_def respond_def
        getCollections_ok[OF assms(4)] files_deleteMany_ok[OF assms(4)])
  moreover have "bucket w' = filter (\<lambda>kv. \<not> startsWith (fst kv) (buildKey sv key)) (bucket w)"
    using l(2) d(2) by simp
  moreover have "files w' = filter (\<lambda>d. \<not> startsWith (filePath d) key) (files w)"
    using l(3) d(3) by simp
  ultimately show ?thesis unfolding key_def[symmetric] by auto
qed


lemma delete_sample_keys:
  "endsWith_slash (normalizeKey (nullish (Some ''reports/'')))"
  "filter (\<lambda>kv. \<not> startsWith (fst kv) (buildKey sample_services (normalizeKey (nullish (Some ''reports/'')))))
     (bucket sample_world) = []"
  "map filePath (filter (\<lambda>d. \<not> startsWith (filePath d) (normalizeKey (nullish (Some ''reports/''))))
     (files sample_world)) = [''readme.txt'']"
  by code_simp+

theorem delete_prefix_removes_all_witness:
  "send sample_services = s3_model 1000 ''vault'' \<and> configured sample_services \<and>
   endsWith_slash (normalizeKey (nullish (Some ''reports/''))) \<and>
   (\<exists>w'. delete_handler sample_services ''65a1b2c3d4e5f60718293a4b'' (Some ''reports/'') sample_world = Some (Ok200 (), w') \<and>
      bucket w' = [] \<and> map filePath (files w') = [''readme.txt''])"
proof -
  have h: "send sample_services = s3_model 1000 ''vault''" "(0::nat) < 1000"
    "configured sample_services" "\<forall>t. db_fault sample_services t = None"
    by (simp_all add: sample_services_def)
  from delete_prefix_removes_all[OF h delete_sample_keys(1), of "''65a1b2c3d4e5f60718293a4b''" sample_world]
  obtain w' where "delete_handler sample_services ''65a1b2c3d4e5f60718293a4b'' (Some ''reports/'') sample_world = Some (Ok200 (), w')"
    "bucket w' = filter (\<lambda>kv. \<not> startsWith (fst kv) (buildKey sample_services (normalizeKey (nullish (Some ''reports/'')))))
       (bucket sample_world)"
    "files w' = filter (\<lambda>d. \<not> startsWith (filePath d) (normalizeKey (nullish (Some ''reports/''))))
       (files sample_world)"
    by blast
  then show ?thesis using h(1,3) delete_sample_keys by simp
qed

section \<open>Copying a source that the store does not hold\<close>

lemma startsWith_append_same: "startsWith (p @ a) (p @ b) \<longleftrightarrow> startsWith a b"
  by (simp add: startsWith_def)

lemma copyS3Object_missing:
  assumes "send sv = s3_model m bn" "AWS_S3_BUCKET sv = bn" "buildKey sv a \<notin> fst ` set (bucket w)"
  shows "\<exists>e w'. copyS3Object sv a b w = (Inl e, w') \<and> bucket w' = bucket w \<and> files w' = files w"
proof (cases "configured sv")
  case False
  then show ?thesis by (simp add: copyS3Object_def await_def ensureS3Configured_def)
next
  case True
  have "map_of (bucket w) (buildKey sv a) = None"
    using assms(3) by (simp add: map_of_eq_None_iff)
  then show ?thesis using True assms(1,2)
    by (simp add: copyS3Object_def await_def ensureS3Configured_def done_io_def s3_send_def
        s3_model_def startsWith_def)
qed

lemma copyS3Object_present:
  assumes "send sv = s3_model m bn" "AWS_S3_BUCKET sv = bn" "configured sv"
    and "map_of (bucket w) (buildKey sv a) = Some body"
  shows "copyS3Object sv a b w =
     (Inr (), w\<lparr>bucket := put_object (buildKey sv b) body (bucket w),
               trace := trace w @ [S3Send (CopyObjectCommand (bn @ ''/'' @ buildKey sv a) (buildKey sv b)) True]\<rparr>)"
  using assms
  by (simp add: copyS3Object_def await_def ensureS3Configured_def done_io_def s3_send_def
      s3_model_def startsWith_def)

lemma getCollections_cases:
  "(\<exists>e. getCollections sv w = (Inl e, w\<lparr>trace := trace w @ [GetCollections]\<rparr>)) \<or>
   getCollections sv w = (Inr (), w\<lparr>trace := trace w @ [GetCollections]\<rparr>)"
  by (simp add: getCollections_def db_call_def split: option.split)

lemma files_updateOne_ok:
  "\<forall>t. db_fault sv t = None \<Longrightarrow>
   files_updateOne sv path doc w =
     (Inr (), w\<lparr>trace := trace w @ [FilesUpdateOne path doc], files := upsert path doc (files w)\<rparr>)"
  by (simp add: files_updateOne_def db_call_def)

lemma files_find_ok:
  "\<forall>t. db_fault sv t = None \<Longrightarrow>
   files_find sv (CHR ''^'' # escapeRegex p) w =
     (Inr (filter (\<lambda>d. startsWith (filePath d) p) (files w)),
      w\<lparr>trace := trace w @ [FilesFind (CHR ''^'' # escapeRegex p)]\<rparr>)"
  by (simp add: files_find_def db_call_def anchored_literal_escapeRegex)

lemma promise_all_ok:
  assumes "\<And>x w. \<exists>w'. F x w = (Inr (), w') \<and> bucket w' = bucket w"
  shows "\<exists>w'. promise_all (map F fs) w = (Inr (), w') \<and> bucket w' = bucket w"
proof (induction fs arbitrary: w)
  case Nil
  then show ?case by simp
next
  case (Cons f fs)
  obtain w1 where a: "F f w = (Inr (), w1)" "bucket w1 = bucket w" using assms by blast
  obtain w' where b: "promise_all (map F fs) w1 = (Inr (), w')" "bucket w' = bucket w1"
    using Cons[of w1] by blast
  have "promise_all (map F (f # fs)) w = (Inr (), w')"
    using a(1) b(1) by (simp only: list.map promise_all.simps prod.case sum.case)
  then show ?case using a(2) b(2) by simp
qed

lemma files_updateOne_cases:
  "(\<exists>e. files_updateOne sv p d w = (Inl e, w\<lparr>trace := trace w @ [FilesUpdateOne p d]\<rparr>)) \<or>
   files_updateOne sv p d w =
     (Inr (), w\<lparr>trace := trace w @ [FilesUpdateOne p d], files := upsert p d (files w)\<rparr>)"
  by (simp add: files_updateOne_def db_call_def split: option.split)

text \<open>When all the upserts of a \<open>Promise.all\<close> are fulfilled, the catalog has taken them in order.\<close>

lemma promise_all_updates_files:
  "promise_all (map (\<lambda>f. files_updateOne sv (g f) (h f)) fs) w = (Inr (), w') \<Longrightarrow>
   files w' = fold (\<lambda>f. upsert (g f) (h f)) fs (files w)"
proof (induction fs arbitrary: w)
  case Nil
  then show ?case by auto
next
  case (Cons f fs)
  let ?F = "\<lambda>f. files_updateOne sv (g f) (h f)"
  let ?w1 = "w\<lparr>trace := trace w @ [FilesUpdateOne (g f) (h f)], files := upsert (g f) (h f) (files w)\<rparr>"
  from files_updateOne_cases[of sv "g f" "h f" w]
  have u: "?F f w = (Inr (), ?w1)"
  proof
    assume "\<exists>e. ?F f w = (Inl e, w\<lparr>trace := trace w @ [FilesUpdateOne (g f) (h f)]\<rparr>)"
    then obtain e where "?F f w = (Inl e, w\<lparr>trace := trace w @ [FilesUpdateOne (g f) (h f)]\<rparr>)" by blast
    then have "fst (promise_all (map ?F (f # fs)) w) = Inl e"
      by (simp only: list.map promise_all.simps prod.case sum.case fst_conv)
    then show ?thesis using Cons.prems by simp
  qed
  have "promise_all (map ?F (f # fs)) w = promise_all (map ?F fs) ?w1"
    using u by (simp only: list.map promise_all.simps prod.case sum.case)
  then have "promise_all (map ?F fs) ?w1 = (Inr (), w')" using Cons.prems by simp
  then have "files w' = fold (\<lambda>f. upsert (g f) (h f)) fs (files ?w1)" by (rule Cons.IH)
  then show ?case by simp
qed

lemma copy_catalog_sync_files:
  assumes "copy_catalog_sync sv user sp dp w = (Inr (), w')"
    and "marked = upsert dp \<lparr>userId = Some user, filePath = dp,
           fileName = basename (strip_trailing_slash dp), size_bytes = 0, isFolder = True,
           updatedAt = Some (now sv)\<rparr> (files w)"
  shows "files w' = fold (\<lambda>f. upsert (filePath (copied_doc sv user sp dp f)) (copied_doc sv user sp dp f))
           (filter (\<lambda>d. startsWith (filePath d) sp) marked) marked"
proof -
  let ?ddoc = "\<lparr>userId = Some user, filePath = dp, fileName = basename (strip_trailing_slash dp),
               size_bytes = 0, isFolder = True, updatedAt = Some (now sv)\<rparr>"
  let ?F = "\<lambda>file. files_updateOne sv (filePath (copied_doc sv user sp dp file))
           (copied_doc sv user sp dp file)"
  obtain r1 w1 where u: "files_updateOne sv dp ?ddoc w = (r1, w1)" by fastforce
  have r1: "r1 = Inr ()"
    using assms(1) u by (cases r1) (simp_all add: copy_catalog_sync_def await_def)
  have w1: "files w1 = marked"
    using u r1 assms(2) by (auto simp: files_updateOne_def db_call_def split: option.splits)
  obtain r2 w2 where f: "files_find sv (''^'' @ escapeRegex sp) w1 = (r2, w2)" by fastforce
  obtain rows where r2: "r2 = Inr rows"
    using assms(1) u r1 f by (cases r2) (simp_all add: copy_catalog_sync_def await_def)
  have w2: "files w2 = files w1" "rows = filter (\<lambda>d. startsWith (filePath d) sp) (files w1)"
    using f r2
    by (auto simp: files_find_def db_call_def anchored_literal_escapeRegex split: option.splits)
  have pa: "promise_all (map ?F rows) w2 = (Inr (), w')"
    using assms(1) u r1 f r2 by (simp add: copy_catalog_sync_def await_def)
  show ?thesis
    using promise_all_updates_files[OF pa] w1 w2 by simp
qed

lemma copy_catalog_sync_ok:
  assumes "\<forall>t. db_fault sv t = None"
  shows "\<exists>w'. copy_catalog_sync sv user sp dp w = (Inr (), w') \<and> bucket w' = bucket w"
proof -
  let ?doc = "\<lparr>userId = Some user, filePath = dp, fileName = basename (strip_trailing_slash dp),
             size_bytes = 0, isFolder = True, updatedAt = Some (now sv)\<rparr>"
  let ?wa = "w\<lparr>trace := trace w @ [FilesUpdateOne dp ?doc], files := upsert dp ?doc (files w)\<rparr>"
  let ?wb = "?wa\<lparr>trace := trace ?wa @ [FilesFind (CHR ''^'' # escapeRegex sp)]\<rparr>"
  let ?F = "\<lambda>file. files_updateOne sv (filePath (copied_doc sv user sp dp file))
         (copied_doc sv user sp dp file)"
  have u: "files_updateOne sv dp ?doc w = (Inr (), ?wa)"
    by (rule files_updateOne_ok[OF assms])
  have f: "files_find sv (CHR ''^'' # escapeRegex sp) ?wa =
      (Inr (filter (\<lambda>d. startsWith (filePath d) sp) (files ?wa)), ?wb)"
    by (rule files_find_ok[OF assms])
  have "\<And>x w. \<exists>w'. ?F x w = (Inr (), w') \<and> bucket w' = bucket w"
    by (simp add: files_updateOne_ok[OF assms])
  then obtain w' where pa: "promise_all (map ?F (filter (\<lambda>d. startsWith (filePath d) sp) (files ?wa))) ?wb = (Inr (), w')"
    "bucket w' = bucket ?wb"
    using promise_all_ok[of ?F] by blast
  have "copy_catalog_sync sv user sp dp w = (Inr (), w')"
    unfolding copy_catalog_sync_def await_def using u f pa(1) by simp
  then show ?thesis using pa(2) by auto
qed

lemma startsWith_append: "startsWith x p \<Longrightarrow> startsWith (x @ y) p"
  unfolding startsWith_iff by auto

lemma filter_single:
  assumes "distinct xs" "k \<in> set xs" "P k" "\<forall>x\<in>set xs. x \<noteq> k \<longrightarrow> \<not> P x"
  shows "filter P xs = [k]"
  using assms
proof (induction xs)
  case Nil
  then show ?case by simp
next
  case (Cons x xs)
  show ?case
  proof (cases "x = k")
    case True
    then have "\<forall>y\<in>set xs. \<not> P y" using Cons.prems by auto
    then have "filter P xs = []" by (simp add: filter_empty_conv)
    then show ?thesis using True Cons.prems(3) by simp
  next
    case False
    then have "\<not> P x" "k \<in> set xs" using Cons.prems by auto
    then show ?thesis using Cons by simp
  qed
qed

lemma remove_first_prefix:
  assumes "p @ r \<noteq> []"
  shows "remove_first p (p @ r) = r"
proof -
  obtain c cs where e: "p @ r = c # cs" using assms by (cases "p @ r") auto
  have "take (length p) (c # cs) = p" "drop (length p) (c # cs) = r"
    unfolding e[symmetric] by simp_all
  then have "remove_first p (c # cs) = r"
    by (simp only: remove_first.simps simp_thms if_True)
  then show ?thesis unfolding e .
qed

text \<open>
  The walk of \<open>copyS3Prefix\<close> over the reference store, just after the destination
  marker was put, when the bucket held no key under the source prefix.
\<close>

lemma copy_prefix_after_marker:
  assumes "send sv = s3_model m bn" "AWS_S3_BUCKET sv = bn" "0 < m" "configured sv"
    and "\<forall>k\<in>fst ` set b. \<not> startsWith k (buildKey sv src)"
    and "bucket w = put_object (buildKey sv dp) [] b" "dp \<noteq> []"
  shows "\<exists>w'. copyS3Prefix sv src dp w = Some (Inr (), w') \<and> files w' = files w \<and>
     bucket w' = (if startsWith dp src
        then put_object (buildKey sv (dp @ drop (length src) dp)) [] (put_object (buildKey sv dp) [] b)
        else put_object (buildKey sv dp) [] b)"
proof (cases "startsWith dp src")
  case False
  have "\<forall>k\<in>set (bucket_keys (bucket w)). \<not> startsWith k (buildKey sv src)"
    using assms(5,6) False
    by (auto simp: bucket_keys_props put_object_def buildKey_def startsWith_append_same)
  then have nokeys: "filter (\<lambda>k. startsWith k (buildKey sv src) \<and> after_token None k)
      (bucket_keys (bucket w)) = []"
    by (simp add: filter_empty_conv)
  have lp: "list_page m (buildKey sv src) None (bucket w) =
      \<lparr>Contents = [], IsTruncated = False, NextContinuationToken = None\<rparr>"
    by (simp add: list_page_def Let_def nokeys)
  have "copyS3Prefix sv src dp w =
      Some (Inr (), w\<lparr>trace := trace w @ [S3Send (ListObjectsV2Command (buildKey sv src) None) True]\<rparr>)"
    unfolding copyS3Prefix_def
    by (subst copyS3Prefix_loop.simps)
      (simp add: assms(4) ensureS3Configured_def s3_send_model_list[OF assms(1)] lp truthy_def)
  then show ?thesis using False assms(6) by simp
next
  case True
  define k where "k = buildKey sv dp"
  define rel where "rel = drop (length src) dp"
  have dp: "dp = src @ rel" using True by (simp add: startsWith_def rel_def) (metis append_take_drop_id)
  have k: "k = buildKey sv src @ rel" "k \<noteq> []"
    using dp assms(7) by (simp_all add: k_def buildKey_def)
  have "filter (\<lambda>x. startsWith x (buildKey sv src) \<and> after_token None x) (bucket_keys (bucket w)) = [k]"
  proof (rule filter_single)
    show "distinct (bucket_keys (bucket w))" by (rule bucket_keys_props)
    show "k \<in> set (bucket_keys (bucket w))"
      by (simp add: bucket_keys_props assms(6) put_object_def k_def)
    show "startsWith k (buildKey sv src) \<and> after_token None k"
      by (simp add: k(1) startsWith_def after_token_def)
    show "\<forall>x\<in>set (bucket_keys (bucket w)). x \<noteq> k \<longrightarrow>
        \<not> (startsWith x (buildKey sv src) \<and> after_token None x)"
      using assms(5) by (auto simp: bucket_keys_props assms(6) put_object_def k_def)
  qed
  then have lp: "list_page m (buildKey sv src) None (bucket w) =
      \<lparr>Contents = [Some k], IsTruncated = False, NextContinuationToken = None\<rparr>"
    using assms(3) by (simp add: list_page_def Let_def)
  let ?w1 = "w\<lparr>trace := trace w @ [S3Send (ListObjectsV2Command (buildKey sv src) None) True]\<rparr>"
  have rf: "remove_first (buildKey sv src) k = rel"
    unfolding k(1) by (rule remove_first_prefix) (use k in simp)
  have "map_of (bucket ?w1) (buildKey sv dp) = Some []"
    by (simp add: assms(6) put_object_def)
  then have cp: "copyS3Object sv dp (dp @ rel) ?w1 =
     (Inr (), ?w1\<lparr>bucket := put_object (buildKey sv (dp @ rel)) [] (bucket ?w1),
               trace := trace ?w1 @ [S3Send (CopyObjectCommand (bn @ ''/'' @ buildKey sv dp) (buildKey sv (dp @ rel))) True]\<rparr>)"
    by (rule copyS3Object_present[OF assms(1,2,4)])
  have items: "copy_items sv src dp [Some k] ?w1 =
     (Inr (), ?w1\<lparr>bucket := put_object (buildKey sv (dp @ rel)) [] (bucket ?w1),
               trace := trace ?w1 @ [S3Send (CopyObjectCommand (bn @ ''/'' @ buildKey sv dp) (buildKey sv (dp @ rel))) True]\<rparr>)"
    using k(2) cp by (simp add: truthy_def rf dp[symmetric])
  have "copyS3Prefix sv src dp w =
      Some (Inr (), ?w1\<lparr>bucket := put_object (buildKey sv (dp @ rel)) [] (bucket ?w1),
               trace := trace ?w1 @ [S3Send (CopyObjectCommand (bn @ ''/'' @ buildKey sv dp) (buildKey sv (dp @ rel))) True]\<rparr>)"
    unfolding copyS3Prefix_def
    by (subst copyS3Prefix_loop.simps)
      (simp add: assms(4) ensureS3Configured_def s3_send_model_list[OF assms(1)] lp items truthy_def
        del: copy_items.simps)
  then show ?thesis using True assms(6) by (simp add: rel_def)
qed

lemma copy_absent_file_fails:
  assumes "send sv = s3_model m bn" "AWS_S3_BUCKET sv = bn"
    and "\<not> endsWith_slash (normalizeKey (nullish sourceKey))"
    and "buildKey sv (normalizeKey (nullish sourceKey)) \<notin> fst ` set (bucket w)"
  shows "\<exists>code msg w'. copy_handler sv user sourceKey destinationKey w = Some (Fail code msg, w') \<and>
     bucket w' = bucket w \<and> files w' = files w"
proof -
  define src where "src = normalizeKey (nullish sourceKey)"
  define dst where "dst = normalizeKey (nullish destinationKey)"
  show ?thesis
  proof (cases "src = [] \<or> dst = []")
    case True
    then show ?thesis by (auto simp: copy_handler_def src_def dst_def Let_def)
  next
    case False
    let ?w0 = "w\<lparr>trace := trace w @ [GetCollections]\<rparr>"
    from getCollections_cases[of sv w] show ?thesis
    proof
      assume "\<exists>e. getCollections sv w = (Inl e, ?w0)"
      then obtain e where "getCollections sv w = (Inl e, ?w0)" by blast
      then show ?thesis using False
        by (simp add: copy_handler_def src_def[symmetric] dst_def[symmetric] Let_def respond_def)
    next
      assume g: "getCollections sv w = (Inr (), ?w0)"
      have "buildKey sv src \<notin> fst ` set (bucket ?w0)" using assms(4) by (simp add: src_def)
      then obtain e w' where c: "copyS3Object sv src dst ?w0 = (Inl e, w')"
        "bucket w' = bucket ?w0" "files w' = files ?w0"
        using copyS3Object_missing[OF assms(1,2)] by blast
      then show ?thesis using False g assms(3)
        by (simp add: copy_handler_def src_def[symmetric] dst_def[symmetric] Let_def respond_def await_def)
    qed
  qed
qed

lemma copy_absent_folder_succeeds:
  assumes "send sv = s3_model m bn" "AWS_S3_BUCKET sv = bn" "0 < m" "configured sv"
    and "\<forall>t. db_fault sv t = None"
    and src: "src = normalizeKey (nullish sourceKey)" and dst: "dst = normalizeKey (nullish destinationKey)"
    and dp: "dp = (if endsWith_slash dst then dst else dst @ ''/'')"
    and marked: "marked = upsert dp \<lparr>userId = Some user, filePath = dp,
           fileName = basename (strip_trailing_slash dp), size_bytes = 0, isFolder = True,
           updatedAt = Some (now sv)\<rparr> (files w)"
    and "endsWith_slash src" "dst \<noteq> []"
    and "\<forall>k\<in>fst ` set (bucket w). \<not> startsWith k (buildKey sv src)"
  shows "\<exists>w'. copy_handler sv user sourceKey destinationKey w = Some (Ok200 (), w') \<and>
     bucket w' = (if startsWith dp src
        then put_object (buildKey sv (dp @ drop (length src) dp)) [] (put_object (buildKey sv dp) [] (bucket w))
        else put_object (buildKey sv dp) [] (bucket w)) \<and>
     files w' = fold (\<lambda>f. upsert (filePath (copied_doc sv user src dp f)) (copied_doc sv user src dp f))
        (filter (\<lambda>d. startsWith (filePath d) src) marked) marked"
proof -
  have ne: "src \<noteq> []" "dst \<noteq> []" "endsWith_slash src" "dp \<noteq> []"
    using assms(10,11) endsWith_slash_nonempty by (auto simp: dp)
  let ?w0 = "w\<lparr>trace := trace w @ [GetCollections]\<rparr>"
  let ?put = "PutObjectCommand (buildKey sv dp) [] ''application/x-directory''"
  let ?w1 = "?w0\<lparr>bucket := put_object (buildKey sv dp) [] (bucket w), trace := trace ?w0 @ [S3Send ?put True]\<rparr>"
  have cf: "createS3Folder sv dp ?w0 = (Inr (), ?w1)"
    using assms(1,4)
    by (simp add: createS3Folder_def await_def ensureS3Configured_def done_io_def s3_send_def s3_model_def)
  have "bucket ?w1 = put_object (buildKey sv dp) [] (bucket w)" by simp
  from copy_prefix_after_marker[OF assms(1,2,3,4) assms(12) this ne(4)]
  obtain w2 where cp: "copyS3Prefix sv src dp ?w1 = Some (Inr (), w2)" "files w2 = files ?w1"
    "bucket w2 = (if startsWith dp src
        then put_object (buildKey sv (dp @ drop (length src) dp)) [] (put_object (buildKey sv dp) [] (bucket w))
        else put_object (buildKey sv dp) [] (bucket w))"
    by blast
  obtain w3 where sync: "copy_catalog_sync sv user src dp w2 = (Inr (), w3)" "bucket w3 = bucket w2"
    using copy_catalog_sync_ok[OF assms(5)] by blast
  have m2: "marked = upsert dp \<lparr>userId = Some user, filePath = dp,
           fileName = basename (strip_trailing_slash dp), size_bytes = 0, isFolder = True,
           updatedAt = Some (now sv)\<rparr> (files w2)"
    using marked cp(2) by simp
  note f3 = copy_catalog_sync_files[OF sync(1) m2]
  obtain w4 where lg: "logFileAction sv ''copy'' src (basename (strip_trailing_slash src)) user (Some (Destination dst)) w3 = (Inr (), w4)"
    "bucket w4 = bucket w3" "files w4 = files w3"
    using logFileAction_ok[OF assms(5)] by blast
  have "copy_handler sv user sourceKey destinationKey w = Some (Ok200 (), w4)"
    using ne cf cp(1) sync(1) lg(1)
    by (simp add: copy_handler_def src[symmetric] dst[symmetric] Let_def dp[symmetric]
        getCollections_ok[OF assms(5)] respond_def await_def)
  then show ?thesis using lg(2,3) sync(2) cp(3) f3 by simp
qed

text \<open>
  Claim C5, as amended. Over the reference store: a copy whose source is a file key
  that the store does not hold returns an error and changes neither the store nor the
  catalog. A copy whose source is a folder prefix under which the store holds no key
  is not an error: with the server configured, the store returning pages of at least
  one key and the database available, it returns success. It puts the empty marker of
  the destination folder in the store and, when the destination prefix itself lies
  under the source prefix, copies that marker (then the only key under the source) to
  the destination prefix followed by what follows the source prefix in it; it writes
  no other store key. It writes to the catalog the record of the destination folder
  and then, for each catalog record under the source prefix, its copy under the
  destination prefix.
\<close>

theorem copy_absent_source:
  assumes "send sv = s3_model m bn" "AWS_S3_BUCKET sv = bn"
    and "src = normalizeKey (nullish sourceKey)" "dst = normalizeKey (nullish destinationKey)"
    and "destPrefix = (if endsWith_slash dst then dst else dst @ ''/'')"
    and "marked = upsert destPrefix \<lparr>userId = Some user, filePath = destPrefix,
           fileName = basename (strip_trailing_slash destPrefix), size_bytes = 0, isFolder = True,
           updatedAt = Some (now sv)\<rparr> (files w)"
  shows "(\<not> endsWith_slash src \<and> buildKey sv src \<notin> fst ` set (bucket w) \<longrightarrow>
          (\<exists>code msg w'. copy_handler sv user sourceKey destinationKey w = Some (Fail code msg, w') \<and>
             bucket w' = bucket w \<and> files w' = files w)) \<and>
         (endsWith_slash src \<and> dst \<noteq> [] \<and> 0 < m \<and> configured sv \<and> (\<forall>t. db_fault sv t = None) \<and>
          (\<forall>k\<in>fst ` set (bucket w). \<not> startsWith k (buildKey sv src)) \<longrightarrow>
          (\<exists>w'. copy_handler sv user sourceKey destinationKey w = Some (Ok200 (), w') \<and>
             bucket w' =
               (if startsWith destPrefix src
                then put_object (buildKey sv (destPrefix @ drop (length src) destPrefix)) []
                       (put_object (buildKey sv destPrefix) [] (bucket w))
                else put_object (buildKey sv destPrefix) [] (bucket w)) \<and>
             files w' =
               fold (\<lambda>f. upsert (filePath (copied_doc sv user src destPrefix f))
                           (copied_doc sv user src destPrefix f))
                 (filter (\<lambda>d. startsWith (filePath d) src) marked) marked))"
proof (intro conjI impI)
  assume "\<not> endsWith_slash src \<and> buildKey sv src \<notin> fst ` set (bucket w)"
  then show "\<exists>code msg w'. copy_handler sv user sourceKey destinationKey w = Some (Fail code msg, w') \<and>
      bucket w' = bucket w \<and> files w' = files w"
    using copy_absent_file_fails[OF assms(1,2), of sourceKey w user destinationKey]
    unfolding assms(3) by blast
next
  assume a: "endsWith_slash src \<and> dst \<noteq> [] \<and> 0 < m \<and> configured sv \<and> (\<forall>t. db_fault sv t = None) \<and>
      (\<forall>k\<in>fst ` set (bucket w). \<not> startsWith k (buildKey sv src))"
  show "\<exists>w'. copy_handler sv user sourceKey destinationKey w = Some (Ok200 (), w') \<and>
      bucket w' =
        (if startsWith destPrefix src
         then put_object (buildKey sv (destPrefix @ drop (length src) destPrefix)) []
                (put_object (buildKey sv destPrefix) [] (bucket w))
         else put_object (buildKey sv destPrefix) [] (bucket w)) \<and>
      files w' =
        fold (\<lambda>f. upsert (filePath (copied_doc sv user src destPrefix f))
                    (copied_doc sv user src destPrefix f))
          (filter (\<lambda>d. startsWith (filePath d) src) marked) marked"
    by (rule copy_absent_folder_succeeds[OF assms(1,2) _ _ _ assms(3,4,5,6)]) (use a in simp_all)
qed


lemma copy_sample_facts:
  "normalizeKey (nullish (Some ''nothere'')) = ''nothere''"
  "normalizeKey (nullish (Some ''nothere/'')) = ''nothere/''"
  "normalizeKey (nullish (Some ''dst'')) = ''dst''"
  "buildKey sample_services ''nothere'' = ''uploads/nothere''"
  "buildKey sample_services ''nothere/'' = ''uploads/nothere/''"
  "buildKey sample_services ''dst/'' = ''uploads/dst/''"
  "basename (strip_trailing_slash ''dst/'') = ''dst''"
  "map_option fst (copy_handler sample_services ''65a1b2c3d4e5f60718293a4b'' (Some ''nothere'') (Some ''dst'') sample_world) =
     Some (Fail 500 ''NoSuchKey'')"
  by code_simp+

theorem copy_absent_source_witness:
  "send sample_services = s3_model 1000 ''vault'' \<and> AWS_S3_BUCKET sample_services = ''vault'' \<and>
   map fst (bucket sample_world) = [''uploads/reports/'', ''uploads/reports/q1.pdf''] \<and>
   (\<exists>code msg w'. copy_handler sample_services ''65a1b2c3d4e5f60718293a4b'' (Some ''nothere'') (Some ''dst'') sample_world =
      Some (Fail code msg, w') \<and> bucket w' = bucket sample_world \<and> files w' = files sample_world) \<and>
   map_option fst (copy_handler sample_services ''65a1b2c3d4e5f60718293a4b'' (Some ''nothere'') (Some ''dst'') sample_world) =
     Some (Fail 500 ''NoSuchKey'') \<and>
   (\<exists>w'. copy_handler sample_services ''65a1b2c3d4e5f60718293a4b'' (Some ''nothere/'') (Some ''dst'') sample_world =
      Some (Ok200 (), w') \<and>
      bucket w' = (''uploads/dst/'', []) # bucket sample_world \<and>
      files w' = files sample_world @
        [\<lparr>userId = Some ''65a1b2c3d4e5f60718293a4b'', filePath = ''dst/'', fileName = ''dst'', size_bytes = 0,
          isFolder = True, updatedAt = Some 1700\<rparr>])"
proof -
  let ?marker = "\<lparr>userId = Some ''65a1b2c3d4e5f60718293a4b'', filePath = ''dst/'', fileName = ''dst'', size_bytes = 0,
          isFolder = True, updatedAt = Some 1700\<rparr>"
  have h: "send sample_services = s3_model 1000 ''vault''" "AWS_S3_BUCKET sample_services = ''vault''"
    "configured sample_services" "\<forall>t. db_fault sample_services t = None" "now sample_services = 1700"
    by (simp_all add: sample_services_def)
  have b: "map fst (bucket sample_world) = [''uploads/reports/'', ''uploads/reports/q1.pdf'']"
    by (simp add: sample_world_def)
  have keys: "fst ` set (bucket sample_world) = {''uploads/reports/'', ''uploads/reports/q1.pdf''}"
    by (simp add: sample_world_def)
  have marked: "files sample_world @ [?marker] =
      upsert ''dst/'' \<lparr>userId = Some ''65a1b2c3d4e5f60718293a4b'', filePath = ''dst/'',
        fileName = basename (strip_trailing_slash ''dst/''), size_bytes = 0, isFolder = True,
        updatedAt = Some (now sample_services)\<rparr> (files sample_world)"
    by (simp add: copy_sample_facts(7) h(5) sample_world_def sample_doc_def)
  note t1 = copy_absent_source[OF h(1,2), where sourceKey = "Some ''nothere''" and src = "''nothere''"
      and destinationKey = "Some ''dst''" and dst = "''dst''" and destPrefix = "''dst/''"
      and user = "''65a1b2c3d4e5f60718293a4b''" and w = sample_world, OF _ _ _ marked]
  have 1: "\<exists>code msg w'. copy_handler sample_services ''65a1b2c3d4e5f60718293a4b'' (Some ''nothere'') (Some ''dst'') sample_world =
      Some (Fail code msg, w') \<and> bucket w' = bucket sample_world \<and> files w' = files sample_world"
    by (rule t1[THEN conjunct1, THEN mp])
      (simp_all add: copy_sample_facts keys endsWith_slash_def)
  note t2 = copy_absent_source[OF h(1,2), where sourceKey = "Some ''nothere/''" and src = "''nothere/''"
      and destinationKey = "Some ''dst''" and dst = "''dst''" and destPrefix = "''dst/''"
      and user = "''65a1b2c3d4e5f60718293a4b''" and w = sample_world, OF _ _ _ marked]
  have "\<exists>w'. copy_handler sample_services ''65a1b2c3d4e5f60718293a4b'' (Some ''nothere/'') (Some ''dst'') sample_world =
      Some (Ok200 (), w') \<and>
      bucket w' =
        (if startsWith ''dst/'' ''nothere/''
         then put_object (buildKey sample_services (''dst/'' @ drop (length ''nothere/'') ''dst/'')) []
                (put_object (buildKey sample_services ''dst/'') [] (bucket sample_world))
         else put_object (buildKey sample_services ''dst/'') [] (bucket sample_world)) \<and>
      files w' =
        fold (\<lambda>f. upsert (filePath (copied_doc sample_services ''65a1b2c3d4e5f60718293a4b'' ''nothere/'' ''dst/'' f))
                    (copied_doc sample_services ''65a1b2c3d4e5f60718293a4b'' ''nothere/'' ''dst/'' f))
          (filter (\<lambda>d. startsWith (filePath d) ''nothere/'') (files sample_world @ [?marker]))
          (files sample_world @ [?marker])"
    by (rule t2[THEN conjunct2, THEN mp])
      (simp_all add: copy_sample_facts keys endsWith_slash_def h startsWith_def)
  moreover have "(if startsWith ''dst/'' ''nothere/''
         then put_object (buildKey sample_services (''dst/'' @ drop (length ''nothere/'') ''dst/'')) []
                (put_object (buildKey sample_services ''dst/'') [] (bucket sample_world))
         else put_object (buildKey sample_services ''dst/'') [] (bucket sample_world)) =
      (''uploads/dst/'', []) # bucket sample_world"
    by (simp add: startsWith_def copy_sample_facts put_object_def sample_world_def)
  moreover have "filter (\<lambda>d. startsWith (filePath d) ''nothere/'') (files sample_world @ [?marker]) = []"
    by (simp add: startsWith_def sample_world_def sample_doc_def)
  ultimately have 2: "\<exists>w'. copy_handler sample_services ''65a1b2c3d4e5f60718293a4b'' (Some ''nothere/'') (Some ''dst'') sample_world =
      Some (Ok200 (), w') \<and>
      bucket w' = (''uploads/dst/'', []) # bucket sample_world \<and>
      files w' = files sample_world @ [?marker]"
    by simp
  show ?thesis using h(1,2) b 1 2 copy_sample_facts(8) by blast
qed

text \<open>
  The claim as it was stated fails for a folder prefix: the sample bucket holds no key
  under \<open>nothere/\<close>, and the copy of that prefix returns success.
\<close>

theorem copy_absent_folder_counterexample:
  "endsWith_slash (normalizeKey (nullish (Some ''nothere/''))) \<and>
   filter (\<lambda>kv. startsWith (fst kv) (buildKey sample_services (normalizeKey (nullish (Some ''nothere/'')))))
     (bucket sample_world) = [] \<and>
   map_option fst (copy_handler sample_services ''65a1b2c3d4e5f60718293a4b'' (Some ''nothere/'') (Some ''dst'') sample_world) =
     Some (Ok200 ())"
  by code_simp


section \<open>Runs of store commands and database calls\<close>

lemma first_fault_append:
  "first_fault f pre (a @ b) =
     (case first_fault f pre a of Some e \<Rightarrow> Some e | None \<Rightarrow> first_fault f (pre @ a) b)"
  by (induction a arbitrary: pre) (auto split: option.splits)

lemma first_fault_s3: "\<forall>e\<in>set a. is_s3 e \<Longrightarrow> first_fault f pre a = None"
  by (induction a arbitrary: pre) auto

lemma is_s3_not_write: "is_s3 e \<Longrightarrow> \<not> is_catalog_write e"
  by (cases e) auto

lemma s3_failed_is_s3: "s3_failed e \<Longrightarrow> is_s3 e"
  by (cases e) auto

lemma db_runI:
  assumes "bucket w' = bucket w" "trace w' = trace w @ evs" "\<forall>e\<in>set evs. \<not> is_s3 e"
    "(\<forall>e\<in>set evs. \<not> is_catalog_write e) \<longrightarrow> files w' = files w"
    "first_fault (db_fault sv) (trace w) evs = (case r of Inl e \<Rightarrow> Some e | Inr x \<Rightarrow> None)"
  shows "db_run sv w r w'"
  unfolding db_run_def using assms by blast

lemma db_runE:
  assumes "db_run sv w r w'"
  obtains evs where "bucket w' = bucket w" "trace w' = trace w @ evs" "\<forall>e\<in>set evs. \<not> is_s3 e"
    "(\<forall>e\<in>set evs. \<not> is_catalog_write e) \<longrightarrow> files w' = files w"
    "first_fault (db_fault sv) (trace w) evs = (case r of Inl e \<Rightarrow> Some e | Inr x \<Rightarrow> None)"
  using assms unfolding db_run_def by blast

lemma db_run_refl: "db_run sv w (Inr x) w"
  by (rule db_runI[where evs = "[]"]) simp_all

lemma db_run_trans:
  assumes "db_run sv w (Inr x) w1" "db_run sv w1 r w2"
  shows "db_run sv w r w2"
proof -
  from assms(1) obtain a where a: "bucket w1 = bucket w" "trace w1 = trace w @ a"
    "\<forall>e\<in>set a. \<not> is_s3 e" "(\<forall>e\<in>set a. \<not> is_catalog_write e) \<longrightarrow> files w1 = files w"
    "first_fault (db_fault sv) (trace w) a = None"
    by (elim db_runE) simp
  from assms(2) obtain b where b: "bucket w2 = bucket w1" "trace w2 = trace w1 @ b"
    "\<forall>e\<in>set b. \<not> is_s3 e" "(\<forall>e\<in>set b. \<not> is_catalog_write e) \<longrightarrow> files w2 = files w1"
    "first_fault (db_fault sv) (trace w1) b = (case r of Inl e \<Rightarrow> Some e | Inr x \<Rightarrow> None)"
    by (elim db_runE)
  show ?thesis
  proof (rule db_runI[where evs = "a @ b"])
    show "bucket w2 = bucket w" using a(1) b(1) by simp
    show "trace w2 = trace w @ a @ b" using a(2) b(2) by simp
    show "\<forall>e\<in>set (a @ b). \<not> is_s3 e" using a(3) b(3) by auto
    show "(\<forall>e\<in>set (a @ b). \<not> is_catalog_write e) \<longrightarrow> files w2 = files w"
      using a(4) b(4) by auto
    show "first_fault (db_fault sv) (trace w) (a @ b) = (case r of Inl e \<Rightarrow> Some e | Inr x \<Rightarrow> None)"
      using a(5) b(5) a(2) by (simp add: first_fault_append)
  qed
qed

lemma db_run_failed_then:
  assumes "db_run sv w (Inl e :: thrown + 'a) w1" "db_run sv w1 (r :: thrown + 'b) w2"
  shows "db_run sv w (Inl e :: thrown + 'c) w2"
proof -
  from assms(1) obtain a where a: "bucket w1 = bucket w" "trace w1 = trace w @ a"
    "\<forall>e\<in>set a. \<not> is_s3 e" "(\<forall>e\<in>set a. \<not> is_catalog_write e) \<longrightarrow> files w1 = files w"
    "first_fault (db_fault sv) (trace w) a = Some e"
    by (elim db_runE) simp
  from assms(2) obtain b where b: "bucket w2 = bucket w1" "trace w2 = trace w1 @ b"
    "\<forall>e\<in>set b. \<not> is_s3 e" "(\<forall>e\<in>set b. \<not> is_catalog_write e) \<longrightarrow> files w2 = files w1"
    by (elim db_runE)
  show ?thesis
  proof (rule db_runI[where evs = "a @ b"])
    show "bucket w2 = bucket w" using a(1) b(1) by simp
    show "trace w2 = trace w @ a @ b" using a(2) b(2) by simp
    show "\<forall>e\<in>set (a @ b). \<not> is_s3 e" using a(3) b(3) by auto
    show "(\<forall>e\<in>set (a @ b). \<not> is_catalog_write e) \<longrightarrow> files w2 = files w"
      using a(4) b(4) by auto
    show "first_fault (db_fault sv) (trace w) (a @ b) = (case (Inl e :: thrown + 'c) of Inl e \<Rightarrow> Some e | Inr x \<Rightarrow> None)"
      using a(5) by (simp add: first_fault_append)
  qed
qed

lemma db_io_await:
  fixes m :: "('a, 's) io" and k :: "'a \<Rightarrow> ('b, 's) io"
  assumes "db_io sv m" "\<And>x. db_io sv (k x)"
  shows "db_io sv (await m k)"
  unfolding db_io_def
proof
  fix w :: "'s world"
  have m: "db_run sv w (fst (m w)) (snd (m w))" using assms(1) by (simp add: db_io_def)
  show "db_run sv w (fst (await m k w)) (snd (await m k w))"
  proof (cases "fst (m w)")
    case (Inl e)
    then have "await m k w = (Inl e, snd (m w))"
      by (cases "m w") (simp add: await_def)
    moreover have "db_run sv w (Inl e :: thrown + 'b) (snd (m w))"
      using db_run_failed_then[OF _ db_run_refl] m Inl by metis
    ultimately show ?thesis by simp
  next
    case (Inr x)
    then have "await m k w = k x (snd (m w))"
      by (cases "m w") (simp add: await_def)
    moreover have "db_run sv (snd (m w)) (fst (k x (snd (m w)))) (snd (k x (snd (m w))))"
      using assms(2) by (simp add: db_io_def)
    ultimately show ?thesis using db_run_trans m Inr by metis
  qed
qed

lemma db_io_call:
  fixes eff :: "('a, 's) io" and sv :: "'s services"
  assumes "\<not> is_s3 ev"
    and "\<And>w. \<exists>x w2. eff w = (Inr x, w2) \<and> bucket w2 = bucket w \<and> trace w2 = trace w \<and>
           (\<not> is_catalog_write ev \<longrightarrow> files w2 = files w)"
  shows "db_io sv (db_call sv ev eff)"
  unfolding db_io_def
proof
  fix w :: "'s world"
  let ?w1 = "w\<lparr>trace := trace w @ [ev]\<rparr>"
  show "db_run sv w (fst (db_call sv ev eff w)) (snd (db_call sv ev eff w))"
  proof (cases "db_fault sv (trace w @ [ev])")
    case (Some e)
    then have "db_call sv ev eff w = (Inl e, ?w1)" by (simp add: db_call_def)
    moreover have "db_run sv w (Inl e :: thrown + 'a) ?w1"
      by (rule db_runI[where evs = "[ev]"]) (use assms(1) Some in simp_all)
    ultimately show ?thesis by simp
  next
    case None
    obtain x w2 where e: "eff ?w1 = (Inr x, w2)" "bucket w2 = bucket ?w1" "trace w2 = trace ?w1"
      "\<not> is_catalog_write ev \<longrightarrow> files w2 = files ?w1"
      using assms(2)[of ?w1] by blast
    have "db_call sv ev eff w = (Inr x, w2)" using None e(1) by (simp add: db_call_def)
    moreover have "db_run sv w (Inr x) w2"
      by (rule db_runI[where evs = "[ev]"]) (use assms(1) None e in simp_all)
    ultimately show ?thesis by simp
  qed
qed

lemma db_io_promise_all:
  fixes sv :: "'s services"
  assumes "\<forall>m\<in>set ms. db_io sv m"
  shows "db_io sv (promise_all ms)"
  using assms
proof (induction ms)
  case Nil
  show ?case unfolding db_io_def by (simp add: db_run_refl)
next
  case (Cons m ms)
  then have m: "db_io sv m" and ms: "db_io sv (promise_all ms)" by auto
  show ?case unfolding db_io_def
  proof
    fix w :: "'s world"
    have mw: "db_run sv w (fst (m w)) (snd (m w))" using m by (simp add: db_io_def)
    have rest: "db_run sv (snd (m w)) (fst (promise_all ms (snd (m w)))) (snd (promise_all ms (snd (m w))))"
      using ms by (simp add: db_io_def)
    show "db_run sv w (fst (promise_all (m # ms) w)) (snd (promise_all (m # ms) w))"
    proof (cases "fst (m w)")
      case (Inl e)
      then have "promise_all (m # ms) w = (Inl e, snd (promise_all ms (snd (m w))))"
        by (cases "m w") simp
      moreover have "db_run sv w (Inl e :: thrown + unit) (snd (promise_all ms (snd (m w))))"
        using db_run_failed_then mw rest Inl by metis
      ultimately show ?thesis by simp
    next
      case (Inr x)
      then have "promise_all (m # ms) w = promise_all ms (snd (m w))"
        by (cases "m w") simp
      then show ?thesis using db_run_trans mw rest Inr by metis
    qed
  qed
qed


lemma db_io_getCollections: "db_io sv (getCollections sv)"
  unfolding getCollections_def by (rule db_io_call) simp_all

lemma db_io_files_updateOne: "db_io sv (files_updateOne sv path doc)"
  unfolding files_updateOne_def by (rule db_io_call) simp_all

lemma db_io_files_deleteOne: "db_io sv (files_deleteOne sv path)"
  unfolding files_deleteOne_def by (rule db_io_call) simp_all

lemma db_io_files_findOne: "db_io sv (files_findOne sv path)"
  unfolding files_findOne_def by (rule db_io_call) simp_all

lemma db_io_files_find: "db_io sv (files_find sv (CHR ''^'' # escapeRegex p))"
  unfolding files_find_def by (rule db_io_call) (simp_all add: anchored_literal_escapeRegex)

lemma db_io_files_deleteMany: "db_io sv (files_deleteMany sv (CHR ''^'' # escapeRegex p))"
  unfolding files_deleteMany_def by (rule db_io_call) (simp_all add: anchored_literal_escapeRegex)

lemma db_io_logFileAction: "db_io sv (logFileAction sv action path name user details)"
  unfolding logFileAction_def Let_def
  by (intro db_io_await db_io_getCollections db_io_call) simp_all

lemma db_io_copy_catalog_sync: "db_io sv (copy_catalog_sync sv user sp dp)"
  unfolding copy_catalog_sync_def
  by (intro db_io_await db_io_files_updateOne db_io_promise_all)
    (auto simp: db_io_files_find[simplified] db_io_files_updateOne)

lemma s3_runI:
  assumes "files w' = files w" "trace w' = trace w @ evs" "\<forall>e\<in>set evs. is_s3 e"
    "case r of Inl e \<Rightarrow> True | Inr x \<Rightarrow> evs \<noteq> [] \<and> (\<forall>e\<in>set evs. \<not> s3_failed e)"
  shows "s3_run w r w'"
  unfolding s3_run_def using assms by blast

lemma s3_stepsI:
  assumes "files w' = files w" "trace w' = trace w @ evs" "\<forall>e\<in>set evs. is_s3 e"
    "case r of Inl e \<Rightarrow> True | Inr x \<Rightarrow> \<forall>e\<in>set evs. \<not> s3_failed e"
  shows "s3_steps w r w'"
  unfolding s3_steps_def using assms by blast

lemma s3_run_send: "s3_run w (fst (s3_send sv c w)) (snd (s3_send sv c w))"
proof (cases "send sv c (bucket w)")
  case (Pair r b)
  show ?thesis
  proof (cases r)
    case (Inl e)
    then show ?thesis using Pair
      by (intro s3_runI[where evs = "[S3Send c False]"]) (simp_all add: s3_send_def)
  next
    case (Inr out)
    then show ?thesis using Pair
      by (intro s3_runI[where evs = "[S3Send c True]"]) (simp_all add: s3_send_def)
  qed
qed

lemma s3_run_guarded_send:
  "s3_run w (fst (await (ensureS3Configured sv) (\<lambda>_. done_io (s3_send sv c)) w))
            (snd (await (ensureS3Configured sv) (\<lambda>_. done_io (s3_send sv c)) w))"
proof (cases "configured sv")
  case False
  then show ?thesis
    by (intro s3_runI[where evs = "[]"]) (simp_all add: await_def ensureS3Configured_def)
next
  case True
  have "s3_run w (fst (s3_send sv c w)) (snd (s3_send sv c w))" by (rule s3_run_send)
  moreover have "snd (await (ensureS3Configured sv) (\<lambda>_. done_io (s3_send sv c)) w) = snd (s3_send sv c w)"
    "(\<exists>e. fst (await (ensureS3Configured sv) (\<lambda>_. done_io (s3_send sv c)) w) = Inl e \<and> fst (s3_send sv c w) = Inl e) \<or>
     (\<exists>x. fst (await (ensureS3Configured sv) (\<lambda>_. done_io (s3_send sv c)) w) = Inr () \<and> fst (s3_send sv c w) = Inr x)"
    using True
    by (cases "s3_send sv c w"; cases "fst (s3_send sv c w)";
        simp add: await_def ensureS3Configured_def done_io_def)+
  ultimately show ?thesis unfolding s3_run_def by auto
qed

lemma s3_run_uploadS3Object:
  "s3_run w (fst (uploadS3Object sv k b ct w)) (snd (uploadS3Object sv k b ct w))"
  unfolding uploadS3Object_def by (rule s3_run_guarded_send)

lemma s3_run_deleteS3Object:
  "s3_run w (fst (deleteS3Object sv k w)) (snd (deleteS3Object sv k w))"
  unfolding deleteS3Object_def by (rule s3_run_guarded_send)

lemma s3_run_createS3Folder:
  "s3_run w (fst (createS3Folder sv k w)) (snd (createS3Folder sv k w))"
  unfolding createS3Folder_def by (rule s3_run_guarded_send)

lemma s3_run_copyS3Object:
  "s3_run w (fst (copyS3Object sv a b w)) (snd (copyS3Object sv a b w))"
  unfolding copyS3Object_def by (rule s3_run_guarded_send)


lemma s3_run_Inl: "s3_run w (Inl e :: thrown + 'a) w' \<Longrightarrow> s3_run w (Inl e' :: thrown + 'b) w'"
  unfolding s3_run_def by simp

lemma s3_run_Inr: "s3_run w (Inr x :: thrown + 'a) w' \<Longrightarrow> s3_run w (Inr y :: thrown + 'b) w'"
  unfolding s3_run_def by simp

lemma s3_steps_Inl: "s3_steps w (Inl e :: thrown + 'a) w' \<Longrightarrow> s3_steps w (Inl e' :: thrown + 'b) w'"
  unfolding s3_steps_def by simp

lemma s3_run_steps: "s3_run w r w' \<Longrightarrow> s3_steps w r w'"
  unfolding s3_run_def s3_steps_def by (cases r) auto

lemma s3_steps_refl: "s3_steps w (Inr x) w"
  by (rule s3_stepsI[where evs = "[]"]) simp_all

lemma s3_steps_compose:
  assumes "s3_steps w (Inr x) w1" "s3_steps w1 r w2"
  shows "s3_steps w r w2"
proof -
  from assms(1) obtain a where a: "files w1 = files w" "trace w1 = trace w @ a"
    "\<forall>e\<in>set a. is_s3 e" "\<forall>e\<in>set a. \<not> s3_failed e"
    unfolding s3_steps_def by auto
  from assms(2) obtain b where b: "files w2 = files w1" "trace w2 = trace w1 @ b"
    "\<forall>e\<in>set b. is_s3 e" "case r of Inl e \<Rightarrow> True | Inr x \<Rightarrow> \<forall>e\<in>set b. \<not> s3_failed e"
    unfolding s3_steps_def by auto
  show ?thesis
    by (rule s3_stepsI[where evs = "a @ b"]) (use a b in \<open>auto split: sum.splits\<close>)
qed

lemma s3_run_compose:
  assumes "s3_run w (Inr x) w1" "s3_steps w1 r w2"
  shows "s3_run w r w2"
proof -
  from assms(1) obtain a where a: "files w1 = files w" "trace w1 = trace w @ a"
    "\<forall>e\<in>set a. is_s3 e" "a \<noteq> []" "\<forall>e\<in>set a. \<not> s3_failed e"
    unfolding s3_run_def by auto
  from assms(2) obtain b where b: "files w2 = files w1" "trace w2 = trace w1 @ b"
    "\<forall>e\<in>set b. is_s3 e" "case r of Inl e \<Rightarrow> True | Inr x \<Rightarrow> \<forall>e\<in>set b. \<not> s3_failed e"
    unfolding s3_steps_def by auto
  show ?thesis
    by (rule s3_runI[where evs = "a @ b"]) (use a b in \<open>auto split: sum.splits\<close>)
qed

lemma s3_steps_copy_items:
  "s3_steps w (fst (copy_items sv sp dp items w)) (snd (copy_items sv sp dp items w))"
proof (induction items arbitrary: w)
  case Nil
  then show ?case by (simp add: s3_steps_refl)
next
  case (Cons item items)
  show ?case
  proof (cases "truthy item")
    case False
    then show ?thesis using Cons by simp
  next
    case True
    let ?c = "copyS3Object sv (sp @ remove_first (buildKey sv sp) (the item))
                (dp @ remove_first (buildKey sv sp) (the item)) w"
    have c: "s3_steps w (fst ?c) (snd ?c)" by (rule s3_run_steps) (rule s3_run_copyS3Object)
    show ?thesis
    proof (cases "fst ?c")
      case (Inl e)
      then have "copy_items sv sp dp (item # items) w = (Inl e, snd ?c)"
        using True by (cases ?c) simp
      then show ?thesis using c Inl by simp
    next
      case (Inr x)
      then have "copy_items sv sp dp (item # items) w = copy_items sv sp dp items (snd ?c)"
        using True by (cases ?c) simp
      then show ?thesis using s3_steps_compose c Inr Cons[of "snd ?c"] by metis
    qed
  qed
qed

lemma s3_run_send_pair: "s3_send sv c w = (r, w1) \<Longrightarrow> s3_run w r w1"
  using s3_run_send[of w sv c] by simp

lemma s3_steps_copy_items_pair: "copy_items sv sp dp items w = (r, w1) \<Longrightarrow> s3_steps w r w1"
  using s3_steps_copy_items[of w sv sp dp items] by simp

lemma s3_run_deleteS3Prefix_loop:
  assumes "deleteS3Prefix_loop sv prefix tok w = Some y"
  shows "s3_run w (fst y) (snd y)"
proof (rule deleteS3Prefix_loop.raw_induct[where P = "\<lambda>sv prefix tok w y. s3_run w (fst y) (snd y)", OF _ assms], goal_cases)
  case (1 loop sv prefix tok w y)
  obtain r1 w1 where l: "s3_send sv (ListObjectsV2Command (buildKey sv prefix) tok) w = (r1, w1)"
    by fastforce
  have lr: "s3_run w r1 w1" using l by (rule s3_run_send_pair)
  show ?case
  proof (cases r1)
    case (Inl e)
    then have "y = (Inl e, w1)" using 1(2) l by simp
    then show ?thesis using lr Inl s3_run_Inl by fastforce
  next
    case (Inr out)
    obtain r2 w2 where d: "(if truthy_keys (Contents out) \<noteq> []
        then s3_send sv (DeleteObjectsCommand (truthy_keys (Contents out))) w1
        else (Inr no_output, w1)) = (r2, w2)"
      by fastforce
    have dr: "s3_steps w1 r2 w2"
    proof (cases "truthy_keys (Contents out) \<noteq> []")
      case True
      then show ?thesis using d s3_run_send_pair s3_run_steps by fastforce
    next
      case False
      then show ?thesis using d s3_steps_refl by fastforce
    qed
    have both: "s3_run w r2 w2" using s3_run_compose lr dr Inr by fastforce
    show ?thesis
    proof (cases r2)
      case e2: (Inl e)
      then have "y = (Inl e, w2)" using 1(2) l Inr d by simp
      then show ?thesis using both e2 s3_run_Inl by fastforce
    next
      case x2: (Inr x)
      show ?thesis
      proof (cases "truthy (if IsTruncated out then NextContinuationToken out else None)")
        case True
        then have "loop sv prefix (NextContinuationToken out) w2 = Some y"
          using 1(2) l Inr d x2 by simp
        then have "s3_run w2 (fst y) (snd y)" by (rule 1(1))
        then show ?thesis using s3_run_compose both x2 s3_run_steps by fastforce
      next
        case False
        then have "y = (Inr (), w2)" using 1(2) l Inr d x2 by simp
        then show ?thesis using both x2 s3_run_Inr by fastforce
      qed
    qed
  qed
qed

lemma s3_run_copyS3Prefix_loop:
  assumes "copyS3Prefix_loop sv sp dp tok w = Some y"
  shows "s3_run w (fst y) (snd y)"
proof (rule copyS3Prefix_loop.raw_induct[where P = "\<lambda>sv sp dp tok w y. s3_run w (fst y) (snd y)", OF _ assms], goal_cases)
  case (1 loop sv sp dp tok w y)
  obtain r1 w1 where l: "s3_send sv (ListObjectsV2Command (buildKey sv sp) tok) w = (r1, w1)"
    by fastforce
  have lr: "s3_run w r1 w1" using l by (rule s3_run_send_pair)
  show ?case
  proof (cases r1)
    case (Inl e)
    then have "y = (Inl e, w1)" using 1(2) l by simp
    then show ?thesis using lr Inl s3_run_Inl by fastforce
  next
    case (Inr out)
    obtain r2 w2 where d: "copy_items sv sp dp (Contents out) w1 = (r2, w2)"
      by fastforce
    have dr: "s3_steps w1 r2 w2" using d by (rule s3_steps_copy_items_pair)
    have both: "s3_run w r2 w2" using s3_run_compose lr dr Inr by fastforce
    show ?thesis
    proof (cases r2)
      case e2: (Inl e)
      then have "y = (Inl e, w2)" using 1(2) l Inr d by simp
      then show ?thesis using both e2 s3_run_Inl by fastforce
    next
      case x2: (Inr x)
      show ?thesis
      proof (cases "truthy (if IsTruncated out then NextContinuationToken out else None)")
        case True
        then have "loop sv sp dp (NextContinuationToken out) w2 = Some y"
          using 1(2) l Inr d x2 by simp
        then have "s3_run w2 (fst y) (snd y)" by (rule 1(1))
        then show ?thesis using s3_run_compose both x2 s3_run_steps by fastforce
      next
        case False
        then have "y = (Inr (), w2)" using 1(2) l Inr d x2 by simp
        then show ?thesis using both x2 s3_run_Inr by fastforce
      qed
    qed
  qed
qed

lemma s3_run_deleteS3Prefix:
  assumes "deleteS3Prefix sv prefix w = Some y"
  shows "s3_run w (fst y) (snd y)"
proof (cases "configured sv")
  case False
  then have "y = (Inl (Error ''S3 is not configured. Check AWS_* environment variables.''), w)"
    using assms by (simp add: deleteS3Prefix_def ensureS3Configured_def)
  then show ?thesis by (intro s3_runI[where evs = "[]"]) simp_all
next
  case True
  then have "deleteS3Prefix_loop sv prefix None w = Some y"
    using assms by (simp add: deleteS3Prefix_def ensureS3Configured_def)
  then show ?thesis by (rule s3_run_deleteS3Prefix_loop)
qed

lemma s3_run_copyS3Prefix:
  assumes "copyS3Prefix sv sp dp w = Some y"
  shows "s3_run w (fst y) (snd y)"
proof (cases "configured sv")
  case False
  then have "y = (Inl (Error ''S3 is not configured. Check AWS_* environment variables.''), w)"
    using assms by (simp add: copyS3Prefix_def ensureS3Configured_def)
  then show ?thesis by (intro s3_runI[where evs = "[]"]) simp_all
next
  case True
  then have "copyS3Prefix_loop sv sp dp None w = Some y"
    using assms by (simp add: copyS3Prefix_def ensureS3Configured_def)
  then show ?thesis by (rule s3_run_copyS3Prefix_loop)
qed


lemma store_first_phases:
  assumes "\<forall>e\<in>set pre. \<not> is_s3 e \<and> \<not> is_catalog_write e" "\<forall>e\<in>set s. is_s3 e"
    "\<forall>e\<in>set d. \<not> is_s3 e"
    "(\<exists>e\<in>set d. is_catalog_write e) \<longrightarrow> s \<noteq> [] \<and> (\<forall>e\<in>set s. \<not> s3_failed e)"
  shows "store_first (pre @ s @ d)"
proof -
  let ?P = "\<lambda>e. \<not> is_catalog_write e"
  have ps: "\<forall>e\<in>set (pre @ s). ?P e" using assms(1,2) is_s3_not_write by auto
  have tw: "takeWhile ?P (pre @ s @ d) = (pre @ s) @ takeWhile ?P d"
    using ps takeWhile_append2[of "pre @ s" ?P d] by simp
  have dw: "dropWhile ?P (pre @ s @ d) = dropWhile ?P d"
    using ps dropWhile_append2[of "pre @ s" ?P d] by simp
  show ?thesis
  proof (cases "dropWhile ?P d = []")
    case True
    then show ?thesis by (simp add: store_first_def Let_def dw)
  next
    case False
    then have "\<exists>e\<in>set d. is_catalog_write e" by (auto simp: dropWhile_eq_Nil_conv)
    then have s: "s \<noteq> []" "\<forall>e\<in>set s. \<not> s3_failed e" using assms(4) by auto
    then obtain e where "e \<in> set s" by (cases s) auto
    then have a: "\<exists>e\<in>set (takeWhile ?P (pre @ s @ d)). is_s3 e"
      unfolding tw using assms(2) by auto
    have b: "\<forall>e\<in>set (pre @ s @ d). \<not> s3_failed e"
      using assms(1,3) s(2) s3_failed_is_s3 by auto
    have c: "\<forall>e\<in>set (dropWhile ?P (pre @ s @ d)). \<not> is_s3 e"
      unfolding dw using assms(3) set_dropWhileD by fastforce
    show ?thesis unfolding store_first_def Let_def using a b c by blast
  qed
qed

lemma request_ok_refl: "request_ok sv dflt w r w"
  unfolding request_ok_def by (rule exI[of _ "[]"]) (simp add: store_first_def)

lemma request_ok_phases:
  fixes r1 :: "thrown + 'a" and res :: "(thrown + 'b) \<times> 's world"
  assumes pre: "trace w0 = trace w @ pre" "files w0 = files w"
      "\<forall>e\<in>set pre. \<not> is_s3 e \<and> \<not> is_catalog_write e"
      "first_fault (db_fault sv) (trace w) pre = None"
    and s3: "s3_run w0 r1 w1"
    and rest: "case r1 of Inl e \<Rightarrow> res = (Inl e, w1) | Inr x \<Rightarrow> db_run sv w1 (fst res) (snd res)"
  shows "request_ok sv dflt w (fst (respond dflt res)) (snd (respond dflt res))"
proof -
  from s3 obtain s where s: "files w1 = files w0" "trace w1 = trace w0 @ s" "\<forall>e\<in>set s. is_s3 e"
    "case r1 of Inl e \<Rightarrow> True | Inr x \<Rightarrow> s \<noteq> [] \<and> (\<forall>e\<in>set s. \<not> s3_failed e)"
    unfolding s3_run_def by blast
  have ffs: "first_fault (db_fault sv) (trace w) (pre @ s) = None"
    using pre(4) first_fault_s3[OF s(3)] by (simp add: first_fault_append)
  show ?thesis
  proof (cases r1)
    case (Inl e)
    then have res: "res = (Inl e, w1)" using rest by simp
    show ?thesis unfolding request_ok_def
    proof (intro exI[of _ "pre @ s @ []"] conjI allI impI)
      show "trace (snd (respond dflt res)) = trace w @ pre @ s @ []"
        using res pre(1) s(2) by (simp add: respond_def)
      show "store_first (pre @ s @ [])"
        by (rule store_first_phases) (use pre(3) s(3) in auto)
      show "files (snd (respond dflt res)) = files w"
        using res pre(2) s(1) by (simp add: respond_def)
      fix e' assume "first_fault (db_fault sv) (trace w) (pre @ s @ []) = Some e'"
      then show "fst (respond dflt res) = Fail 500 (message_or e' dflt)" using ffs by simp
    qed
  next
    case (Inr x)
    then have "db_run sv w1 (fst res) (snd res)" using rest by simp
    then obtain d where d: "trace (snd res) = trace w1 @ d" "\<forall>e\<in>set d. \<not> is_s3 e"
      "(\<forall>e\<in>set d. \<not> is_catalog_write e) \<longrightarrow> files (snd res) = files w1"
      "first_fault (db_fault sv) (trace w1) d = (case fst res of Inl e \<Rightarrow> Some e | Inr x \<Rightarrow> None)"
      by (elim db_runE)
    have sne: "s \<noteq> []" "\<forall>e\<in>set s. \<not> s3_failed e" using s(4) Inr by auto
    have tr: "trace (snd res) = trace w @ pre @ s @ d" using d(1) s(2) pre(1) by simp
    have ff: "first_fault (db_fault sv) (trace w) (pre @ s @ d) =
        (case fst res of Inl e \<Rightarrow> Some e | Inr x \<Rightarrow> None)"
      using ffs d(4) s(2) pre(1) first_fault_append[of "db_fault sv" "trace w" "pre @ s" d] by simp
    have sr: "snd (respond dflt res) = snd res" "fst res = Inl e' \<Longrightarrow> fst (respond dflt res) = Fail 500 (message_or e' dflt)" for e'
      by (cases res; cases "fst res"; simp add: respond_def)+
    show ?thesis unfolding request_ok_def
    proof (intro exI[of _ "pre @ s @ d"] conjI allI impI)
      show "trace (snd (respond dflt res)) = trace w @ pre @ s @ d" using tr sr(1) by simp
      show "store_first (pre @ s @ d)"
        by (rule store_first_phases) (use pre(3) s(3) d(2) sne in auto)
      show "files (snd (respond dflt res)) = files w"
        if "\<forall>e\<in>set (pre @ s @ d). \<not> is_catalog_write e"
        using that d(3) s(1) pre(2) sr(1) by simp
      fix e' assume "first_fault (db_fault sv) (trace w) (pre @ s @ d) = Some e'"
      then have "fst res = Inl e'" using ff by (cases "fst res") auto
      then show "fst (respond dflt res) = Fail 500 (message_or e' dflt)" by (rule sr(2))
    qed
  qed
qed

lemma request_ok_await:
  fixes S :: "('a, 's) io" and K :: "'a \<Rightarrow> ('b, 's) io"
  assumes "\<And>w. s3_run w (fst (S w)) (snd (S w))" "\<And>x. db_io sv (K x)"
  shows "request_ok sv dflt w (fst (respond dflt (await S K w))) (snd (respond dflt (await S K w)))"
proof -
  obtain r1 w1 where sw: "S w = (r1, w1)" by fastforce
  have s3: "s3_run w r1 w1" using assms(1)[of w] sw by simp
  have "case r1 of Inl e \<Rightarrow> await S K w = (Inl e, w1)
      | Inr x \<Rightarrow> db_run sv w1 (fst (await S K w)) (snd (await S K w))"
  proof (cases r1)
    case (Inl e)
    then show ?thesis using sw by (simp add: await_def)
  next
    case (Inr x)
    then have "await S K w = K x w1" using sw by (simp add: await_def)
    then show ?thesis using assms(2)[of x] Inr by (simp add: db_io_def)
  qed
  then show ?thesis
    by (intro request_ok_phases[where pre = "[]" and ?w0.0 = w and ?r1.0 = r1 and ?w1.0 = w1] s3) simp_all
qed

lemma request_ok_consequences:
  assumes "request_ok sv dflt w r w'"
  shows "store_before_catalog w w' \<and> db_failure_reported sv dflt w r w'"
proof -
  from assms obtain evs where e: "trace w' = trace w @ evs" "store_first evs"
    "(\<forall>e\<in>set evs. \<not> is_catalog_write e) \<longrightarrow> files w' = files w"
    "\<forall>e. first_fault (db_fault sv) (trace w) evs = Some e \<longrightarrow> r = Fail 500 (message_or e dflt)"
    unfolding request_ok_def by blast
  have ne: "new_events w w' = evs" using e(1) by (simp add: new_events_def)
  have nw: "\<forall>e\<in>set evs. \<not> is_catalog_write e"
    if "(\<exists>e\<in>set evs. s3_failed e) \<or> (\<forall>e\<in>set evs. \<not> is_s3 e)"
  proof (rule ccontr)
    assume "\<not> (\<forall>e\<in>set evs. \<not> is_catalog_write e)"
    then have "dropWhile (\<lambda>e. \<not> is_catalog_write e) evs \<noteq> []"
      by (auto simp: dropWhile_eq_Nil_conv)
    then have "(\<exists>e\<in>set (takeWhile (\<lambda>e. \<not> is_catalog_write e) evs). is_s3 e)"
      "\<forall>e\<in>set evs. \<not> s3_failed e"
      using e(2) unfolding store_first_def Let_def by auto
    then show False using that set_takeWhileD by fastforce
  qed
  show ?thesis
    unfolding store_before_catalog_def db_failure_reported_def ne
    using e nw by blast
qed


lemma request_ok_await_after:
  fixes S :: "('a, 's) io" and K :: "'a \<Rightarrow> ('b, 's) io"
  assumes "trace w0 = trace w @ pre" "files w0 = files w"
      "\<forall>e\<in>set pre. \<not> is_s3 e \<and> \<not> is_catalog_write e"
      "first_fault (db_fault sv) (trace w) pre = None"
    and "\<And>w. s3_run w (fst (S w)) (snd (S w))" "\<And>x. db_io sv (K x)"
  shows "request_ok sv dflt w (fst (respond dflt (await S K w0))) (snd (respond dflt (await S K w0)))"
proof -
  obtain r1 w1 where sw: "S w0 = (r1, w1)" by fastforce
  have s3: "s3_run w0 r1 w1" using assms(5)[of w0] sw by simp
  have "case r1 of Inl e \<Rightarrow> await S K w0 = (Inl e, w1)
      | Inr x \<Rightarrow> db_run sv w1 (fst (await S K w0)) (snd (await S K w0))"
  proof (cases r1)
    case (Inl e)
    then show ?thesis using sw by (simp add: await_def)
  next
    case (Inr x)
    then have "await S K w0 = K x w1" using sw by (simp add: await_def)
    then show ?thesis using assms(6)[of x] Inr by (simp add: db_io_def)
  qed
  then show ?thesis
    by (intro request_ok_phases[where pre = pre and ?w0.0 = w0 and ?r1.0 = r1 and ?w1.0 = w1] s3 assms(1-4))
qed

lemma db_io_upload_tail:
  "db_io sv (await (getCollections sv) (\<lambda>_. await (files_updateOne sv path doc) (\<lambda>_.
     logFileAction sv action path' name user details)))"
  by (intro db_io_await db_io_getCollections db_io_files_updateOne db_io_logFileAction)

lemma upload_handler_ok:
  "request_ok sv ''Upload failed'' w (fst (upload_handler sv user key content ct w))
     (snd (upload_handler sv user key content ct w))"
proof (cases "normalizeKey (nullish key) = [] \<or> \<not> truthy content")
  case True
  then show ?thesis by (auto simp: upload_handler_def Let_def request_ok_refl)
next
  case False
  then show ?thesis
    unfolding upload_handler_def Let_def
    by (simp only: if_False) (intro request_ok_await s3_run_uploadS3Object db_io_upload_tail)
qed

lemma folder_handler_ok:
  "request_ok sv ''Create folder failed'' w (fst (folder_handler sv user key w))
     (snd (folder_handler sv user key w))"
proof (cases "normalizeKey (nullish key) = []")
  case True
  then show ?thesis by (simp add: folder_handler_def Let_def request_ok_refl)
next
  case False
  then show ?thesis
    unfolding folder_handler_def Let_def
    by (simp only: if_False) (intro request_ok_await s3_run_createS3Folder db_io_upload_tail)
qed

lemma db_io_delete_many_tail:
  "db_io sv (await (getCollections sv) (\<lambda>_. await (files_deleteMany sv (''^'' @ escapeRegex key)) (\<lambda>_.
     logFileAction sv action path name user details)))"
  by (intro db_io_await db_io_getCollections db_io_logFileAction)
    (simp add: db_io_files_deleteMany)

lemma db_io_delete_one_tail:
  "db_io sv (await (getCollections sv) (\<lambda>_. await (files_deleteOne sv key) (\<lambda>_.
     logFileAction sv action path name user details)))"
  by (intro db_io_await db_io_getCollections db_io_files_deleteOne db_io_logFileAction)

lemma delete_handler_ok:
  assumes "delete_handler sv user keyParam w = Some (r, w')"
  shows "request_ok sv ''Delete failed'' w r w'"
proof -
  define key where "key = normalizeKey (nullish keyParam)"
  consider (missing) "key = []" | (tree) "key \<noteq> []" "endsWith_slash key"
    | (single) "key \<noteq> []" "\<not> endsWith_slash key" by blast
  then show ?thesis
  proof cases
    case missing
    then have "r = Fail 400 ''Missing key''" "w' = w"
      using assms by (simp_all add: delete_handler_def key_def[symmetric])
    then show ?thesis by (simp add: request_ok_refl)
  next
    case tree
    let ?D = "await (getCollections sv) (\<lambda>_. await (files_deleteMany sv (''^'' @ escapeRegex key)) (\<lambda>_.
      logFileAction sv ''folder_delete'' key (basename (strip_trailing_slash key)) user None))"
    obtain r1 w1 where p: "deleteS3Prefix sv key w = Some (r1, w1)"
      using assms tree
      by (cases "deleteS3Prefix sv key w") (auto simp: delete_handler_def key_def[symmetric])
    have s3: "s3_run w r1 w1" using s3_run_deleteS3Prefix[OF p] by simp
    define res :: "(thrown + unit) \<times> 'a world" where
      "res = (case r1 of Inl e \<Rightarrow> (Inl e, w1) | Inr x \<Rightarrow> ?D w1)"
    have out: "(r, w') = respond ''Delete failed'' res"
      using assms tree p
      by (cases r1) (simp_all add: delete_handler_def key_def[symmetric] res_def)
    have "case r1 of Inl e \<Rightarrow> res = (Inl e, w1) | Inr x \<Rightarrow> db_run sv w1 (fst res) (snd res)"
      using db_io_delete_many_tail[of sv key "''folder_delete''" key "basename (strip_trailing_slash key)" user None]
      by (cases r1) (simp_all add: res_def db_io_def)
    then have "request_ok sv ''Delete failed'' w (fst (respond ''Delete failed'' res))
        (snd (respond ''Delete failed'' res))"
      by (intro request_ok_phases[where pre = "[]" and ?w0.0 = w and ?r1.0 = r1 and ?w1.0 = w1] s3) simp_all
    then show ?thesis using out by (metis fst_conv snd_conv)
  next
    case single
    then have "(r, w') = respond ''Delete failed''
        (await (deleteS3Object sv key) (\<lambda>_. await (getCollections sv) (\<lambda>_.
           await (files_deleteOne sv key) (\<lambda>_.
           logFileAction sv ''delete'' key (basename key) user None))) w)"
      using assms by (simp add: delete_handler_def key_def[symmetric])
    moreover have "request_ok sv ''Delete failed'' w
        (fst (respond ''Delete failed'' (await (deleteS3Object sv key) (\<lambda>_. await (getCollections sv) (\<lambda>_.
           await (files_deleteOne sv key) (\<lambda>_.
           logFileAction sv ''delete'' key (basename key) user None))) w)))
        (snd (respond ''Delete failed'' (await (deleteS3Object sv key) (\<lambda>_. await (getCollections sv) (\<lambda>_.
           await (files_deleteOne sv key) (\<lambda>_.
           logFileAction sv ''delete'' key (basename key) user None))) w)))"
      by (intro request_ok_await s3_run_deleteS3Object db_io_delete_one_tail)
    ultimately show ?thesis by (metis fst_conv snd_conv)
  qed
qed


lemma getCollections_result:
  "getCollections sv w =
     (case db_fault sv (trace w @ [GetCollections]) of
        Some e \<Rightarrow> (Inl e, w\<lparr>trace := trace w @ [GetCollections]\<rparr>)
      | None \<Rightarrow> (Inr (), w\<lparr>trace := trace w @ [GetCollections]\<rparr>))"
  by (simp add: getCollections_def db_call_def split: option.split)

lemma request_ok_first_call_failed:
  assumes "db_fault sv (trace w @ [GetCollections]) = Some e"
  shows "request_ok sv dflt w (Fail 500 (message_or e dflt)) (w\<lparr>trace := trace w @ [GetCollections]\<rparr>)"
  unfolding request_ok_def
  by (rule exI[of _ "[GetCollections]"]) (use assms in \<open>simp add: store_first_def\<close>)

lemma db_io_copy_tree_tail:
  "db_io sv (await (copy_catalog_sync sv user sp dp) (\<lambda>_.
     logFileAction sv action path name user details))"
  by (intro db_io_await db_io_copy_catalog_sync db_io_logFileAction)

lemma db_io_copy_file_tail:
  "db_io sv (await (files_findOne sv src) (\<lambda>sourceDoc.
     await (files_updateOne sv dst (doc sourceDoc)) (\<lambda>_.
     logFileAction sv action path name user details)))"
  by (intro db_io_await db_io_files_findOne db_io_files_updateOne db_io_logFileAction)

lemma copy_handler_ok:
  assumes "copy_handler sv user sourceKey destinationKey w = Some (r, w')"
  shows "request_ok sv ''Copy failed'' w r w'"
proof -
  define src where "src = normalizeKey (nullish sourceKey)"
  define dst where "dst = normalizeKey (nullish destinationKey)"
  define dp where "dp = (if endsWith_slash dst then dst else dst @ ''/'')"
  define w0 where "w0 = w\<lparr>trace := trace w @ [GetCollections]\<rparr>"
  show ?thesis
  proof (cases "src = [] \<or> dst = []")
    case True
    then have "r = Fail 400 ''Missing source or destination''" "w' = w"
      using assms by (auto simp: copy_handler_def src_def[symmetric] dst_def[symmetric] Let_def)
    then show ?thesis by (simp add: request_ok_refl)
  next
    case valid: False
    show ?thesis
    proof (cases "db_fault sv (trace w @ [GetCollections])")
      case (Some e)
      then have "getCollections sv w = (Inl e, w0)" by (simp add: getCollections_result w0_def)
      then have "r = Fail 500 (message_or e ''Copy failed'')" "w' = w0"
        using assms valid
        by (simp_all add: copy_handler_def src_def[symmetric] dst_def[symmetric] Let_def respond_def)
      then show ?thesis using request_ok_first_call_failed[OF Some] by (simp add: w0_def)
    next
      case None
      then have g: "getCollections sv w = (Inr (), w0)" by (simp add: getCollections_result w0_def)
      have pre: "trace w0 = trace w @ [GetCollections]" "files w0 = files w"
        "\<forall>e\<in>set [GetCollections]. \<not> is_s3 e \<and> \<not> is_catalog_write e"
        "first_fault (db_fault sv) (trace w) [GetCollections] = None"
        using None by (simp_all add: w0_def)
      show ?thesis
      proof (cases "endsWith_slash src")
        case False
        let ?S = "copyS3Object sv src dst"
        let ?K = "\<lambda>_::unit. await (files_findOne sv src) (\<lambda>sourceDoc.
                  await (files_updateOne sv dst
                           \<lparr>userId = Some user, filePath = dst,
                            fileName = basename dst,
                            size_bytes = (case sourceDoc of Some d \<Rightarrow> size_bytes d | None \<Rightarrow> 0),
                            isFolder = False, updatedAt = Some (now sv)\<rparr>) (\<lambda>_.
                  logFileAction sv ''copy'' src
                    (basename (strip_trailing_slash src)) user
                    (Some (Destination dst))))"
        have "(r, w') = respond ''Copy failed'' (await ?S ?K w0)"
          using assms valid g False
          by (simp add: copy_handler_def src_def[symmetric] dst_def[symmetric] Let_def)
        moreover have "request_ok sv ''Copy failed'' w (fst (respond ''Copy failed'' (await ?S ?K w0)))
            (snd (respond ''Copy failed'' (await ?S ?K w0)))"
          by (intro request_ok_await_after[OF pre] s3_run_copyS3Object db_io_copy_file_tail)
        ultimately show ?thesis by (metis fst_conv snd_conv)
      next
        case True
        let ?D = "await (copy_catalog_sync sv user src dp) (\<lambda>_.
                   logFileAction sv ''copy'' src (basename (strip_trailing_slash src)) user (Some (Destination dst)))"
        obtain c w1 where cf: "createS3Folder sv dp w0 = (c, w1)" by fastforce
        have c1: "s3_run w0 c w1" using s3_run_createS3Folder[of w0 sv dp] cf by simp
        show ?thesis
        proof (cases c)
          case (Inl e)
          then have out: "(r, w') = respond ''Copy failed'' (Inl e :: thrown + unit, w1)"
            using assms valid g True cf
            by (simp add: copy_handler_def src_def[symmetric] dst_def[symmetric] Let_def dp_def[symmetric])
          have "request_ok sv ''Copy failed'' w (fst (respond ''Copy failed'' (Inl e :: thrown + unit, w1)))
              (snd (respond ''Copy failed'' (Inl e :: thrown + unit, w1)))"
            by (rule request_ok_phases[OF pre c1]) (simp add: Inl)
          then show ?thesis using out by (metis fst_conv snd_conv)
        next
          case (Inr u)
          obtain p w2 where cp: "copyS3Prefix sv src dp w1 = Some (p, w2)"
            using assms valid g True cf Inr
            by (cases "copyS3Prefix sv src dp w1")
              (auto simp: copy_handler_def src_def[symmetric] dst_def[symmetric] Let_def dp_def[symmetric])
          have "s3_run w1 p w2" using s3_run_copyS3Prefix[OF cp] by simp
          then have c2: "s3_run w0 p w2" using s3_run_compose c1 Inr s3_run_steps by fastforce
          define res :: "(thrown + unit) \<times> 'a world" where
            "res = (case p of Inl e \<Rightarrow> (Inl e, w2) | Inr x \<Rightarrow> ?D w2)"
          have out: "(r, w') = respond ''Copy failed'' res"
            using assms valid g True cf Inr cp
            by (cases p)
              (simp_all add: copy_handler_def src_def[symmetric] dst_def[symmetric] Let_def
                dp_def[symmetric] res_def)
          have "case p of Inl e \<Rightarrow> res = (Inl e, w2) | Inr x \<Rightarrow> db_run sv w2 (fst res) (snd res)"
            using db_io_copy_tree_tail[of sv user src dp "''copy''" src "basename (strip_trailing_slash src)" "Some (Destination dst)"]
            by (cases p) (simp_all add: res_def db_io_def)
          then have "request_ok sv ''Copy failed'' w (fst (respond ''Copy failed'' res))
              (snd (respond ''Copy failed'' res))"
            by (rule request_ok_phases[OF pre c2])
          then show ?thesis using out by (metis fst_conv snd_conv)
        qed
      qed
    qed
  qed
qed



section \<open>The store before the catalog\<close>

text \<open>
  Claim C7. In every mutation (upload, folder creation, copy, delete) the commands to
  the store come before any write on the catalog, and a write on the catalog is issued
  only when a command was sent and none failed: when a store command fails, or the
  store is not even reached, no catalog write is performed and the catalog is unchanged.
\<close>

theorem store_call_before_catalog_write:
  "store_before_catalog w (snd (upload_handler sv user key content contentType w)) \<and>
   store_before_catalog w (snd (folder_handler sv user key w)) \<and>
   (\<forall>r w'. copy_handler sv user sourceKey destinationKey w = Some (r, w') \<longrightarrow>
      store_before_catalog w w') \<and>
   (\<forall>r w'. delete_handler sv user key w = Some (r, w') \<longrightarrow> store_before_catalog w w')"
proof (intro conjI allI impI)
  show "store_before_catalog w (snd (upload_handler sv user key content contentType w))"
    using request_ok_consequences[OF upload_handler_ok] by (rule conjunct1)
  show "store_before_catalog w (snd (folder_handler sv user key w))"
    using request_ok_consequences[OF folder_handler_ok] by (rule conjunct1)
  show "store_before_catalog w w'"
    if "copy_handler sv user sourceKey destinationKey w = Some (r, w')" for r w'
    using request_ok_consequences[OF copy_handler_ok[OF that]] by (rule conjunct1)
  show "store_before_catalog w w'"
    if "delete_handler sv user key w = Some (r, w')" for r w'
    using request_ok_consequences[OF delete_handler_ok[OF that]] by (rule conjunct1)
qed

lemma upload_sample_events:
  "new_events sample_world
     (snd (upload_handler sample_services ''65a1b2c3d4e5f60718293a4b'' (Some ''a.txt'') (Some ''aGk='') None sample_world)) =
   [S3Send (PutObjectCommand ''uploads/a.txt'' [104, 105] ''application/octet-stream'') True,
    GetCollections,
    FilesUpdateOne ''a.txt''
      \<lparr>userId = Some ''65a1b2c3d4e5f60718293a4b'', filePath = ''a.txt'', fileName = ''a.txt'', size_bytes = 2,
       isFolder = False, updatedAt = Some 1700\<rparr>,
    GetCollections,
    LogsInsertOne
      \<lparr>log_action = ''upload'', log_filePath = ''a.txt'', log_fileName = ''a.txt'',
       log_details = Some (ContentType None), log_userId = Some ''65a1b2c3d4e5f60718293a4b'',
       log_createdAt = 1700\<rparr>]"
  by code_simp

lemma upload_unconfigured_events:
  "new_events sample_world
     (snd (upload_handler (sample_services\<lparr>configured := False\<rparr>) ''65a1b2c3d4e5f60718293a4b'' (Some ''a.txt'')
        (Some ''aGk='') None sample_world)) = []"
  by code_simp

lemma delete_sample_returns:
  "map_option fst (delete_handler sample_services ''65a1b2c3d4e5f60718293a4b'' (Some ''reports/'') sample_world) =
     Some (Ok200 ())"
  by code_simp

theorem store_call_before_catalog_write_witness:
  "store_before_catalog sample_world
     (snd (upload_handler sample_services ''65a1b2c3d4e5f60718293a4b'' (Some ''a.txt'') (Some ''aGk='') None sample_world)) \<and>
   is_s3 (hd (new_events sample_world
     (snd (upload_handler sample_services ''65a1b2c3d4e5f60718293a4b'' (Some ''a.txt'') (Some ''aGk='') None sample_world)))) \<and>
   new_events sample_world
     (snd (upload_handler (sample_services\<lparr>configured := False\<rparr>) ''65a1b2c3d4e5f60718293a4b'' (Some ''a.txt'')
        (Some ''aGk='') None sample_world)) = [] \<and>
   files (snd (upload_handler (sample_services\<lparr>configured := False\<rparr>) ''65a1b2c3d4e5f60718293a4b'' (Some ''a.txt'')
        (Some ''aGk='') None sample_world)) = files sample_world \<and>
   (\<exists>r w'. delete_handler sample_services ''65a1b2c3d4e5f60718293a4b'' (Some ''reports/'') sample_world = Some (r, w') \<and>
      store_before_catalog sample_world w')"
proof -
  note a = store_call_before_catalog_write[of sample_world sample_services "''65a1b2c3d4e5f60718293a4b''" "Some ''a.txt''"
      "Some ''aGk=''" None "Some ''reports/''" "Some ''archive''"]
  note b = store_call_before_catalog_write[of sample_world "sample_services\<lparr>configured := False\<rparr>"
      "''65a1b2c3d4e5f60718293a4b''" "Some ''a.txt''" "Some ''aGk=''" None "Some ''reports/''" "Some ''archive''"]
  note c = store_call_before_catalog_write[of sample_world sample_services "''65a1b2c3d4e5f60718293a4b''" "Some ''reports/''"
      "Some ''aGk=''" None "Some ''reports/''" "Some ''archive''"]
  have 1: "store_before_catalog sample_world
     (snd (upload_handler sample_services ''65a1b2c3d4e5f60718293a4b'' (Some ''a.txt'') (Some ''aGk='') None sample_world))"
    using a by blast
  have 2: "is_s3 (hd (new_events sample_world
     (snd (upload_handler sample_services ''65a1b2c3d4e5f60718293a4b'' (Some ''a.txt'') (Some ''aGk='') None sample_world))))"
    unfolding upload_sample_events by simp
  have 3: "files (snd (upload_handler (sample_services\<lparr>configured := False\<rparr>) ''65a1b2c3d4e5f60718293a4b'' (Some ''a.txt'')
        (Some ''aGk='') None sample_world)) = files sample_world"
    using b upload_unconfigured_events unfolding store_before_catalog_def by simp
  obtain r w' where d: "delete_handler sample_services ''65a1b2c3d4e5f60718293a4b'' (Some ''reports/'') sample_world = Some (r, w')"
    using delete_sample_returns by fastforce
  then have "store_before_catalog sample_world w'" using c by blast
  then show ?thesis using 1 2 3 d upload_unconfigured_events by blast
qed

section \<open>A failure of the database after the store call\<close>

text \<open>
  Claim C4, as amended. In every mutation, a database call of the request that throws
  (the catalog upsert or delete, the insertion of the activity-log entry, or the
  access to the collections before them), also after a store call that succeeded, is
  propagated as the operation's own error: the reply is the error response, status
  500, with the message of the first call that threw, and not the success response.
\<close>

theorem database_failure_is_reported:
  "db_failure_reported sv ''Upload failed'' w
     (fst (upload_handler sv user key content contentType w))
     (snd (upload_handler sv user key content contentType w)) \<and>
   db_failure_reported sv ''Create folder failed'' w
     (fst (folder_handler sv user key w)) (snd (folder_handler sv user key w)) \<and>
   (\<forall>r w'. copy_handler sv user sourceKey destinationKey w = Some (r, w') \<longrightarrow>
      db_failure_reported sv ''Copy failed'' w r w') \<and>
   (\<forall>r w'. delete_handler sv user key w = Some (r, w') \<longrightarrow>
      db_failure_reported sv ''Delete failed'' w r w')"
proof (intro conjI allI impI)
  show "db_failure_reported sv ''Upload failed'' w
     (fst (upload_handler sv user key content contentType w))
     (snd (upload_handler sv user key content contentType w))"
    using request_ok_consequences[OF upload_handler_ok] by (rule conjunct2)
  show "db_failure_reported sv ''Create folder failed'' w
     (fst (folder_handler sv user key w)) (snd (folder_handler sv user key w))"
    using request_ok_consequences[OF folder_handler_ok] by (rule conjunct2)
  show "db_failure_reported sv ''Copy failed'' w r w'"
    if "copy_handler sv user sourceKey destinationKey w = Some (r, w')" for r w'
    using request_ok_consequences[OF copy_handler_ok[OF that]] by (rule conjunct2)
  show "db_failure_reported sv ''Delete failed'' w r w'"
    if "delete_handler sv user key w = Some (r, w')" for r w'
    using request_ok_consequences[OF delete_handler_ok[OF that]] by (rule conjunct2)
qed

lemma upload_failing_catalog_fault:
  "first_fault (db_fault (sample_services\<lparr>db_fault := failing_catalog\<rparr>)) (trace sample_world)
     (new_events sample_world
        (snd (upload_handler (sample_services\<lparr>db_fault := failing_catalog\<rparr>) ''65a1b2c3d4e5f60718293a4b'' (Some ''a.txt'')
           (Some ''aGk='') None sample_world))) = Some (Error ''catalog unavailable'')"
  by code_simp

theorem database_failure_is_reported_witness:
  "first_fault (db_fault (sample_services\<lparr>db_fault := failing_catalog\<rparr>)) (trace sample_world)
     (new_events sample_world
        (snd (upload_handler (sample_services\<lparr>db_fault := failing_catalog\<rparr>) ''65a1b2c3d4e5f60718293a4b'' (Some ''a.txt'')
           (Some ''aGk='') None sample_world))) = Some (Error ''catalog unavailable'') \<and>
   fst (upload_handler (sample_services\<lparr>db_fault := failing_catalog\<rparr>) ''65a1b2c3d4e5f60718293a4b'' (Some ''a.txt'')
          (Some ''aGk='') None sample_world) = Fail 500 ''catalog unavailable''"
proof -
  have "db_failure_reported (sample_services\<lparr>db_fault := failing_catalog\<rparr>) ''Upload failed'' sample_world
     (fst (upload_handler (sample_services\<lparr>db_fault := failing_catalog\<rparr>) ''65a1b2c3d4e5f60718293a4b'' (Some ''a.txt'')
        (Some ''aGk='') None sample_world))
     (snd (upload_handler (sample_services\<lparr>db_fault := failing_catalog\<rparr>) ''65a1b2c3d4e5f60718293a4b'' (Some ''a.txt'')
        (Some ''aGk='') None sample_world))"
    using database_failure_is_reported[of "sample_services\<lparr>db_fault := failing_catalog\<rparr>"
        sample_world "''65a1b2c3d4e5f60718293a4b''" "Some ''a.txt''" "Some ''aGk=''" None "Some ''x''" "Some ''y''"]
    by blast
  then have "fst (upload_handler (sample_services\<lparr>db_fault := failing_catalog\<rparr>) ''65a1b2c3d4e5f60718293a4b'' (Some ''a.txt'')
          (Some ''aGk='') None sample_world) =
      Fail 500 (message_or (Error ''catalog unavailable'') ''Upload failed'')"
    unfolding db_failure_reported_def using upload_failing_catalog_fault by blast
  then show ?thesis using upload_failing_catalog_fault by (simp add: message_or_def)
qed

text \<open>
  The claim as it was stated fails: in the sample, the store accepts the upload and the
  object is in the bucket, and the reply is the error response when the catalog upsert
  throws, and also when the upsert succeeds and the insertion of the log entry throws.
\<close>

theorem catalog_failure_counterexample:
  "hd (trace (snd (upload_handler (sample_services\<lparr>db_fault := failing_catalog\<rparr>) ''65a1b2c3d4e5f60718293a4b''
        (Some ''a.txt'') (Some ''aGk='') None sample_world))) =
     S3Send (PutObjectCommand ''uploads/a.txt'' [104, 105] ''application/octet-stream'') True \<and>
   map_of (bucket (snd (upload_handler (sample_services\<lparr>db_fault := failing_catalog\<rparr>) ''65a1b2c3d4e5f60718293a4b''
        (Some ''a.txt'') (Some ''aGk='') None sample_world))) ''uploads/a.txt'' = Some [104, 105] \<and>
   fst (upload_handler (sample_services\<lparr>db_fault := failing_catalog\<rparr>) ''65a1b2c3d4e5f60718293a4b''
        (Some ''a.txt'') (Some ''aGk='') None sample_world) = Fail 500 ''catalog unavailable'' \<and>
   map_of (bucket (snd (upload_handler (sample_services\<lparr>db_fault := failing_log\<rparr>) ''65a1b2c3d4e5f60718293a4b''
        (Some ''a.txt'') (Some ''aGk='') None sample_world))) ''uploads/a.txt'' = Some [104, 105] \<and>
   last (map filePath (files (snd (upload_handler (sample_services\<lparr>db_fault := failing_log\<rparr>) ''65a1b2c3d4e5f60718293a4b''
        (Some ''a.txt'') (Some ''aGk='') None sample_world)))) = ''a.txt'' \<and>
   fst (upload_handler (sample_services\<lparr>db_fault := failing_log\<rparr>) ''65a1b2c3d4e5f60718293a4b''
        (Some ''a.txt'') (Some ''aGk='') None sample_world) = Fail 500 ''log unavailable''"
  by code_simp

section \<open>The key that is a single dot\<close>

lemma normalizeKey_a_dotdot: "normalizeKey ''a/..'' = ''.''"
  by (simp add: normalizeKey_def replace_backslashes_def posix_normalize_def
      strip_dotdot_consts strip_leading_slashes_def)

text \<open>
  Claim C10. The raw input \<open>a/..\<close> resolves to the root, yet it normalises to the key
  \<open>.\<close>, not to the empty string: the delete operation does not reject it as a
  missing key, it deletes the object, the catalog record and logs the action for the
  literal key \<open>.\<close>.
\<close>

theorem dot_key_is_operated_on:
  "normalizeKey ''a/..'' = ''.'' \<and>
   resolve_from [] (split_slash ''a/..'') = Some [] \<and>
   delete_handler sv user (Some ''a/..'') w \<noteq> Some (Fail 400 ''Missing key'', w) \<and>
   delete_handler sv user (Some ''a/..'') w =
     Some (respond ''Delete failed''
       (await (deleteS3Object sv ''.'') (\<lambda>_.
        await (getCollections sv) (\<lambda>_.
        await (files_deleteOne sv ''.'') (\<lambda>_.
        logFileAction sv ''delete'' ''.'' ''.'' user None))) w))"
proof -
  have b: "basename ''.'' = ''.''" by (simp add: basename_def)
  have eq: "delete_handler sv user (Some ''a/..'') w =
     Some (respond ''Delete failed''
       (await (deleteS3Object sv ''.'') (\<lambda>_.
        await (getCollections sv) (\<lambda>_.
        await (files_deleteOne sv ''.'') (\<lambda>_.
        logFileAction sv ''delete'' ''.'' ''.'' user None))) w))"
    by (simp add: delete_handler_def nullish_def normalizeKey_a_dotdot Let_def endsWith_slash_def b)
  have "fst (respond ''Delete failed'' r) \<noteq> Fail 400 ''Missing key''" for r :: "(thrown + unit) \<times> 's world"
    by (cases r; cases "fst r") (simp_all add: respond_def)
  then have "delete_handler sv user (Some ''a/..'') w \<noteq> Some (Fail 400 ''Missing key'', w)"
    unfolding eq by (metis fst_conv option.inject)
  then show ?thesis using eq normalizeKey_a_dotdot by simp
qed

lemma delete_dot_sample:
  "map_option (\<lambda>(r, w'). (r, hd (new_events sample_world w')))
     (delete_handler sample_services ''65a1b2c3d4e5f60718293a4b'' (Some ''a/..'') sample_world) =
   Some (Ok200 (), S3Send (DeleteObjectCommand ''uploads/.'') True)"
  by code_simp

theorem dot_key_is_operated_on_witness:
  "normalizeKey ''a/..'' = ''.'' \<and>
   delete_handler sample_services ''65a1b2c3d4e5f60718293a4b'' (Some ''a/..'') sample_world \<noteq>
     Some (Fail 400 ''Missing key'', sample_world) \<and>
   map_option (\<lambda>(r, w'). (r, hd (new_events sample_world w')))
     (delete_handler sample_services ''65a1b2c3d4e5f60718293a4b'' (Some ''a/..'') sample_world) =
   Some (Ok200 (), S3Send (DeleteObjectCommand ''uploads/.'') True)"
  using dot_key_is_operated_on[of sample_services "''65a1b2c3d4e5f60718293a4b''" sample_world] delete_dot_sample
  by blast

section \<open>The catalog records written by the copy of a folder\<close>

lemma upsert_other: "x \<in> set ds \<Longrightarrow> filePath x \<noteq> p \<Longrightarrow> x \<in> set (upsert p d ds)"
  by (induction ds) auto

lemma files_updateOne_trace:
  "\<exists>r w'. files_updateOne sv p d w = (r, w') \<and> trace w' = trace w @ [FilesUpdateOne p d]"
  by (simp add: files_updateOne_def db_call_def split: option.split)

lemma promise_all_updates_events:
  "\<exists>evs. trace (snd (promise_all (map (\<lambda>f. files_updateOne sv (g f) (h f)) fs) w)) = trace w @ evs \<and>
     (\<forall>f\<in>set fs. FilesUpdateOne (g f) (h f) \<in> set evs)"
proof (induction fs arbitrary: w)
  case Nil
  then show ?case by simp
next
  case (Cons f fs)
  let ?F = "\<lambda>f. files_updateOne sv (g f) (h f)"
  obtain r w1 where u: "?F f w = (r, w1)" "trace w1 = trace w @ [FilesUpdateOne (g f) (h f)]"
    using files_updateOne_trace by blast
  obtain evs where e: "trace (snd (promise_all (map ?F fs) w1)) = trace w1 @ evs"
    "\<forall>f\<in>set fs. FilesUpdateOne (g f) (h f) \<in> set evs"
    using Cons[of w1] by blast
  have "snd (promise_all (map ?F (f # fs)) w) = snd (promise_all (map ?F fs) w1)"
    using u(1) by (cases r) (simp_all only: list.map promise_all.simps prod.case sum.case snd_conv)
  then have "trace (snd (promise_all (map ?F (f # fs)) w)) = trace w @ (FilesUpdateOne (g f) (h f) # evs)"
    using e(1) u(2) by simp
  moreover have "\<forall>f'\<in>set (f # fs). FilesUpdateOne (g f') (h f') \<in> set (FilesUpdateOne (g f) (h f) # evs)"
    using e(2) by auto
  ultimately show ?case by blast
qed

lemma copy_catalog_sync_events:
  assumes "copy_catalog_sync sv user sp dp w = (Inr (), w')"
    and "file \<in> set (files w)" "filePath file \<noteq> dp" "startsWith (filePath file) sp"
  shows "\<exists>evs. trace w' = trace w @ evs \<and>
     FilesUpdateOne (filePath (copied_doc sv user sp dp file)) (copied_doc sv user sp dp file) \<in> set evs"
proof -
  let ?ddoc = "\<lparr>userId = Some user, filePath = dp, fileName = basename (strip_trailing_slash dp),
               size_bytes = 0, isFolder = True, updatedAt = Some (now sv)\<rparr>"
  let ?F = "\<lambda>file. files_updateOne sv (filePath (copied_doc sv user sp dp file))
           (copied_doc sv user sp dp file)"
  obtain r1 w1 where u: "files_updateOne sv dp ?ddoc w = (r1, w1)" by fastforce
  have r1: "r1 = Inr ()"
    using assms(1) u by (cases r1) (simp_all add: copy_catalog_sync_def await_def)
  have w1: "trace w1 = trace w @ [FilesUpdateOne dp ?ddoc]" "files w1 = upsert dp ?ddoc (files w)"
    using u r1 by (auto simp: files_updateOne_def db_call_def split: option.splits)
  obtain r2 w2 where f: "files_find sv (''^'' @ escapeRegex sp) w1 = (r2, w2)" by fastforce
  obtain rows where r2: "r2 = Inr rows"
    using assms(1) u r1 f by (cases r2) (simp_all add: copy_catalog_sync_def await_def)
  have w2: "trace w2 = trace w1 @ [FilesFind (CHR ''^'' # escapeRegex sp)]"
    "rows = filter (\<lambda>d. startsWith (filePath d) sp) (files w1)"
    using f r2
    by (auto simp: files_find_def db_call_def anchored_literal_escapeRegex split: option.splits)
  have pa: "promise_all (map ?F rows) w2 = (Inr (), w')"
    using assms(1) u r1 f r2 by (simp add: copy_catalog_sync_def await_def)
  have "file \<in> set rows"
    using w2(2) w1(2) assms(2,3,4) upsert_other by simp
  moreover obtain evs where "trace (snd (promise_all (map ?F rows) w2)) = trace w2 @ evs"
    "\<forall>f\<in>set rows. FilesUpdateOne (filePath (copied_doc sv user sp dp f)) (copied_doc sv user sp dp f) \<in> set evs"
    using promise_all_updates_events[of sv "\<lambda>f. filePath (copied_doc sv user sp dp f)" "copied_doc sv user sp dp" rows w2]
    by blast
  ultimately have "trace w' = trace w @ ([FilesUpdateOne dp ?ddoc, FilesFind (CHR ''^'' # escapeRegex sp)] @ evs)"
    "FilesUpdateOne (filePath (copied_doc sv user sp dp file)) (copied_doc sv user sp dp file) \<in>
      set ([FilesUpdateOne dp ?ddoc, FilesFind (CHR ''^'' # escapeRegex sp)] @ evs)"
    using pa w1(1) w2(1) by auto
  then show ?thesis by blast
qed


lemma upsert_mem: "d \<in> set (upsert p d ds)"
  by (induction ds) auto

lemma upsert_set: "set (upsert p d ds) \<subseteq> insert d (set ds)"
  by (induction ds) auto

lemma upsert_distinct_paths:
  assumes "distinct (map filePath ds)" "filePath d = p"
  shows "distinct (map filePath (upsert p d ds))"
  using assms(1)
proof (induction ds)
  case Nil
  then show ?case by simp
next
  case (Cons a ds)
  show ?case
  proof (cases "filePath a = p")
    case True
    then show ?thesis using Cons.prems assms(2) by simp
  next
    case False
    have na: "\<forall>y\<in>set ds. filePath y \<noteq> filePath a"
    proof
      fix y assume "y \<in> set ds"
      then have "filePath y \<in> set (map filePath ds)" by simp
      moreover have "filePath a \<notin> set (map filePath ds)" using Cons.prems by simp
      ultimately show "filePath y \<noteq> filePath a" by metis
    qed
    have "\<forall>x\<in>set (upsert p d ds). filePath x \<noteq> filePath a"
    proof
      fix x assume "x \<in> set (upsert p d ds)"
      then have "x = d \<or> x \<in> set ds" using upsert_set[of p d ds] by auto
      then show "filePath x \<noteq> filePath a"
      proof
        assume "x = d"
        then show ?thesis using False assms(2) by simp
      next
        assume "x \<in> set ds"
        then show ?thesis using na by simp
      qed
    qed
    then have "filePath a \<notin> filePath ` set (upsert p d ds)" by (metis imageE)
    then show ?thesis using False Cons by simp
  qed
qed

lemma fold_upsert_keeps:
  "d \<in> set ds \<Longrightarrow> \<forall>x\<in>set fs. g x \<noteq> filePath d \<Longrightarrow>
   d \<in> set (fold (\<lambda>x. upsert (g x) (h x)) fs ds)"
proof (induction fs arbitrary: ds)
  case Nil
  then show ?case by simp
next
  case (Cons f fs)
  have "d \<in> set (upsert (g f) (h f) ds)"
    using Cons.prems by (intro upsert_other) auto
  then show ?case using Cons.IH[of "upsert (g f) (h f) ds"] Cons.prems(2) by simp
qed

lemma fold_upsert_member:
  assumes "distinct (map g fs)" "f \<in> set fs" "\<forall>x\<in>set fs. filePath (h x) = g x"
  shows "h f \<in> set (fold (\<lambda>x. upsert (g x) (h x)) fs ds)"
  using assms
proof (induction fs arbitrary: ds)
  case Nil
  then show ?case by simp
next
  case (Cons a fs)
  show ?case
  proof (cases "f = a")
    case True
    have "h a \<in> set (upsert (g a) (h a) ds)" by (rule upsert_mem)
    moreover have "\<forall>x\<in>set fs. g x \<noteq> filePath (h a)"
    proof
      fix x assume x: "x \<in> set fs"
      have "g a \<notin> g ` set fs" using Cons.prems(1) by simp
      then have "g x \<noteq> g a" using x by (metis imageI)
      moreover have "filePath (h a) = g a" using Cons.prems(3) by simp
      ultimately show "g x \<noteq> filePath (h a)" by simp
    qed
    ultimately have "h a \<in> set (fold (\<lambda>x. upsert (g x) (h x)) fs (upsert (g a) (h a) ds))"
      by (rule fold_upsert_keeps)
    then show ?thesis using True by simp
  next
    case False
    then have "h f \<in> set (fold (\<lambda>x. upsert (g x) (h x)) fs (upsert (g a) (h a) ds))"
      using Cons.prems by (intro Cons.IH) auto
    then show ?thesis by simp
  qed
qed

lemma distinct_new_paths:
  assumes "distinct (map filePath ds)"
  shows "distinct (map (\<lambda>f. dp @ drop (length sp) (filePath f))
           (filter (\<lambda>d. startsWith (filePath d) sp) ds))"
proof -
  have d: "distinct ds" "inj_on filePath (set ds)"
    using assms by (simp_all add: distinct_map)
  have "inj_on (\<lambda>f. dp @ drop (length sp) (filePath f)) (set (filter (\<lambda>d. startsWith (filePath d) sp) ds))"
  proof (rule inj_onI)
    fix a b
    assume a: "a \<in> set (filter (\<lambda>d. startsWith (filePath d) sp) ds)"
      and b: "b \<in> set (filter (\<lambda>d. startsWith (filePath d) sp) ds)"
      and e: "dp @ drop (length sp) (filePath a) = dp @ drop (length sp) (filePath b)"
    have "take (length sp) (filePath a) = take (length sp) (filePath b)"
      using a b by (simp add: startsWith_def)
    moreover have "drop (length sp) (filePath a) = drop (length sp) (filePath b)" using e by simp
    ultimately have "filePath a = filePath b" by (metis append_take_drop_id)
    then show "a = b" using d(2) a b by (auto dest: inj_onD)
  qed
  then show ?thesis using d(1) by (simp add: distinct_map)
qed

lemma logFileAction_files:
  "logFileAction sv action path name user details w = (r, w') \<Longrightarrow> files w' = files w"
  by (auto simp: logFileAction_def await_def getCollections_def db_call_def Let_def
      split: option.splits)

lemma db_io_trace: "db_io sv m \<Longrightarrow> m w = (r, w') \<Longrightarrow> \<exists>evs. trace w' = trace w @ evs"
  unfolding db_io_def db_run_def by (metis fst_conv snd_conv)

lemma s3_run_trace: "s3_run w r w' \<Longrightarrow> (\<exists>evs. trace w' = trace w @ evs) \<and> files w' = files w"
  unfolding s3_run_def by blast

text \<open>
  The steps of a copy of a folder that succeeded: the store commands leave the catalog
  as it was, the catalog is then synchronised, and the log entry leaves it alone.
\<close>

lemma copy_tree_run:
  assumes "copy_handler sv user sourceKey destinationKey w = Some (Ok200 (), w')"
    and "src = normalizeKey (nullish sourceKey)" "dst = normalizeKey (nullish destinationKey)"
    and "dp = (if endsWith_slash dst then dst else dst @ ''/'')"
    and "endsWith_slash src"
  shows "\<exists>w2 w3 pre post. files w2 = files w \<and> trace w2 = trace w @ pre \<and>
     copy_catalog_sync sv user src dp w2 = (Inr (), w3) \<and>
     files w' = files w3 \<and> trace w' = trace w3 @ post"
proof -
  define w0 where "w0 = w\<lparr>trace := trace w @ [GetCollections]\<rparr>"
  note src = assms(2) and dst = assms(3) and dp = assms(4)
  have tree: "endsWith_slash src" by (rule assms(5))
  have valid: "\<not> (src = [] \<or> dst = [])"
    using assms(1) by (auto simp: copy_handler_def src[symmetric] dst[symmetric] Let_def)
  have g: "getCollections sv w = (Inr (), w0)"
    using assms(1) valid
    by (cases "db_fault sv (trace w @ [GetCollections])")
      (simp_all add: getCollections_result w0_def copy_handler_def src[symmetric]
        dst[symmetric] Let_def respond_def)
  obtain c w1 where cf: "createS3Folder sv dp w0 = (c, w1)" by fastforce
  have c: "c = Inr ()"
    using assms(1) valid g tree cf
    by (cases c) (simp_all add: copy_handler_def src[symmetric] dst[symmetric] Let_def
        dp[symmetric] respond_def)
  obtain p w2 where cp: "copyS3Prefix sv src dp w1 = Some (p, w2)"
    using assms(1) valid g tree cf c
    by (cases "copyS3Prefix sv src dp w1")
      (auto simp: copy_handler_def src[symmetric] dst[symmetric] Let_def dp[symmetric])
  have p: "p = Inr ()"
    using assms(1) valid g tree cf c cp
    by (cases p) (simp_all add: copy_handler_def src[symmetric] dst[symmetric] Let_def
        dp[symmetric] respond_def)
  let ?L = "logFileAction sv ''copy'' src (basename (strip_trailing_slash src)) user (Some (Destination dst))"
  obtain r3 w3 where sy: "copy_catalog_sync sv user src dp w2 = (r3, w3)" by fastforce
  have out: "respond ''Copy failed'' (await (copy_catalog_sync sv user src dp) (\<lambda>_. ?L) w2) = (Ok200 (), w')"
    using assms(1) valid g tree cf c cp p
    by (simp add: copy_handler_def src[symmetric] dst[symmetric] Let_def dp[symmetric])
  have r3: "r3 = Inr ()"
    using out sy by (cases r3) (simp_all add: await_def respond_def)
  obtain r4 where lg: "?L w3 = (r4, w')"
    using out sy r3 by (cases "?L w3"; cases "fst (?L w3)") (simp_all add: await_def respond_def)
  have t1: "\<exists>evs. trace w1 = trace w0 @ evs" "files w1 = files w0"
    using s3_run_trace[OF s3_run_createS3Folder[of w0 sv dp]] cf by simp_all
  have t2: "\<exists>evs. trace w2 = trace w1 @ evs" "files w2 = files w1"
    using s3_run_trace[OF s3_run_copyS3Prefix[OF cp]] by simp_all
  obtain evs1 evs2 where "trace w1 = trace w0 @ evs1" "trace w2 = trace w1 @ evs2"
    using t1(1) t2(1) by blast
  then have a: "trace w2 = trace w @ ([GetCollections] @ evs1 @ evs2)" by (simp add: w0_def)
  have b: "files w2 = files w" using t1(2) t2(2) by (simp add: w0_def)
  obtain evs4 where t4: "trace w' = trace w3 @ evs4"
    using db_io_trace[OF db_io_logFileAction lg] by blast
  have f4: "files w' = files w3" using lg by (rule logFileAction_files)
  show ?thesis using a b sy[unfolded r3] t4 f4 by blast
qed

lemma copy_tree_records:
  assumes "copy_handler sv user sourceKey destinationKey w = Some (Ok200 (), w')"
    and "src = normalizeKey (nullish sourceKey)" "dst = normalizeKey (nullish destinationKey)"
    and "dp = (if endsWith_slash dst then dst else dst @ ''/'')"
    and "endsWith_slash src"
    and "file \<in> set (files w)" "startsWith (filePath file) src" "filePath file \<noteq> dp"
  shows "FilesUpdateOne (filePath (copied_doc sv user src dp file)) (copied_doc sv user src dp file)
       \<in> set (new_events w w') \<and>
     (distinct (map filePath (files w)) \<longrightarrow> copied_doc sv user src dp file \<in> set (files w'))"
proof -
  let ?ddoc = "\<lparr>userId = Some user, filePath = dp, fileName = basename (strip_trailing_slash dp),
               size_bytes = 0, isFolder = True, updatedAt = Some (now sv)\<rparr>"
  define marked where "marked = upsert dp ?ddoc (files w)"
  define rows where "rows = filter (\<lambda>d. startsWith (filePath d) src) marked"
  obtain w2 w3 pre post where run: "files w2 = files w" "trace w2 = trace w @ pre"
    "copy_catalog_sync sv user src dp w2 = (Inr (), w3)" "files w' = files w3" "trace w' = trace w3 @ post"
    using copy_tree_run[OF assms(1,2,3,4,5)] by blast
  have m2: "marked = upsert dp ?ddoc (files w2)" by (simp add: marked_def run(1))
  have f3: "files w3 = fold (\<lambda>f. upsert (filePath (copied_doc sv user src dp f)) (copied_doc sv user src dp f))
      rows marked"
    unfolding rows_def by (rule copy_catalog_sync_files[OF run(3) m2])
  have np: "filePath (copied_doc sv user src dp f) = dp @ drop (length src) (filePath f)" for f
    by (simp add: copied_doc_def Let_def)
  have "file \<in> set marked"
    unfolding marked_def using assms(6,8) by (intro upsert_other)
  then have fr: "file \<in> set rows" using assms(7) by (simp add: rows_def)
  have 1: "copied_doc sv user src dp file \<in> set (files w')" if d: "distinct (map filePath (files w))"
  proof -
    have "distinct (map filePath marked)"
      unfolding marked_def by (rule upsert_distinct_paths[OF d]) simp
    then have "distinct (map (\<lambda>f. dp @ drop (length src) (filePath f)) rows)"
      unfolding rows_def by (rule distinct_new_paths)
    then have dn: "distinct (map (\<lambda>f. filePath (copied_doc sv user src dp f)) rows)"
      by (simp add: np)
    have "copied_doc sv user src dp file \<in> set (files w3)"
      unfolding f3 by (rule fold_upsert_member[OF dn fr]) simp
    then show ?thesis using run(4) by simp
  qed
  have fw: "file \<in> set (files w2)" using assms(6) run(1) by simp
  obtain evs3 where t3: "trace w3 = trace w2 @ evs3"
    "FilesUpdateOne (filePath (copied_doc sv user src dp file)) (copied_doc sv user src dp file) \<in> set evs3"
    using copy_catalog_sync_events[OF run(3) fw assms(8,7)] by blast
  have "trace w' = trace w @ (pre @ evs3 @ post)"
    using run(2,5) t3(1) by simp
  then have "new_events w w' = pre @ evs3 @ post"
    by (simp add: new_events_def)
  then have 2: "FilesUpdateOne (filePath (copied_doc sv user src dp file)) (copied_doc sv user src dp file)
      \<in> set (new_events w w')"
    using t3(2) by simp
  show ?thesis using 1 2 by blast
qed

text \<open>
  Claim C6, as amended. When the copy of a folder succeeds, then for every catalog
  record strictly under the source prefix (a record at the destination path itself
  apart: the copy has just overwritten it with the record of the destination folder)
  an upsert of the destination record is issued, and on a catalog that holds at most
  one record for each path the catalog holds that record afterwards. Its path is the
  destination prefix followed by the rest of the source path, its \<open>isFolder\<close> is
  true when the source record's stored \<open>isFolder\<close> is true or the new path ends in
  a slash, its \<open>fileName\<close> is the source record's stored \<open>fileName\<close> when that is
  not empty and the last segment of the new path otherwise, and its size is that of
  the source record.
\<close>

theorem copied_record_fields:
  assumes "copy_handler sv user sourceKey destinationKey w = Some (Ok200 (), w')"
    and "src = normalizeKey (nullish sourceKey)" "endsWith_slash src"
    and "dst = normalizeKey (nullish destinationKey)"
    and "destPrefix = (if endsWith_slash dst then dst else dst @ ''/'')"
    and "file \<in> set (files w)" "startsWith (filePath file) src" "filePath file \<noteq> src"
    and "filePath file \<noteq> destPrefix"
    and "newPath = destPrefix @ drop (length src) (filePath file)"
  shows "\<exists>doc. FilesUpdateOne newPath doc \<in> set (new_events w w') \<and>
     (distinct (map filePath (files w)) \<longrightarrow> doc \<in> set (files w')) \<and>
     filePath doc = newPath \<and>
     isFolder doc = (isFolder file \<or> endsWith_slash newPath) \<and>
     fileName doc = (if fileName file \<noteq> [] then fileName file
                     else basename (strip_trailing_slash newPath)) \<and>
     size_bytes doc = size_bytes file"
proof -
  let ?doc = "copied_doc sv user src destPrefix file"
  have r: "FilesUpdateOne (filePath ?doc) ?doc \<in> set (new_events w w') \<and>
      (distinct (map filePath (files w)) \<longrightarrow> ?doc \<in> set (files w'))"
    by (rule copy_tree_records[OF assms(1,2,4,5,3,6,7,9)])
  have f: "filePath ?doc = newPath"
    "isFolder ?doc = (isFolder file \<or> endsWith_slash newPath)"
    "fileName ?doc = (if fileName file \<noteq> [] then fileName file else basename (strip_trailing_slash newPath))"
    "size_bytes ?doc = size_bytes file"
    using assms(10) by (simp_all add: copied_doc_def Let_def)
  show ?thesis
  proof (intro exI conjI)
    show "FilesUpdateOne newPath ?doc \<in> set (new_events w w')" using r f(1) by simp
    show "distinct (map filePath (files w)) \<longrightarrow> ?doc \<in> set (files w')" using r by (rule conjunct2)
  qed (rule f)+
qed

lemma copy_sample_returns:
  "map_option fst (copy_handler sample_services ''65a1b2c3d4e5f60718293a4b'' (Some ''reports/'')
     (Some ''archive/2024'') sample_world) = Some (Ok200 ())"
  by code_simp

lemma copy_sample_keys:
  "normalizeKey (nullish (Some ''reports/'')) = ''reports/''"
  "normalizeKey (nullish (Some ''archive/2024'')) = ''archive/2024''"
  by code_simp+

theorem copied_record_fields_witness:
  "distinct (map filePath (files sample_world)) \<and>
   (\<exists>w'. copy_handler sample_services ''65a1b2c3d4e5f60718293a4b'' (Some ''reports/'')
        (Some ''archive/2024'') sample_world = Some (Ok200 (), w') \<and>
     (\<exists>doc. FilesUpdateOne ''archive/2024/q1.pdf'' doc \<in> set (new_events sample_world w') \<and>
        doc \<in> set (files w') \<and>
        filePath doc = ''archive/2024/q1.pdf'' \<and> isFolder doc = False \<and>
        fileName doc = ''q1.pdf'' \<and> size_bytes doc = 5))"
proof -
  obtain w' where c: "copy_handler sample_services ''65a1b2c3d4e5f60718293a4b'' (Some ''reports/'')
      (Some ''archive/2024'') sample_world = Some (Ok200 (), w')"
    using copy_sample_returns by fastforce
  let ?file = "sample_doc ''reports/q1.pdf'' ''q1.pdf'' 5 False"
  have d: "distinct (map filePath (files sample_world))"
    by (simp add: sample_world_def sample_doc_def)
  have "\<exists>doc. FilesUpdateOne ''archive/2024/q1.pdf'' doc \<in> set (new_events sample_world w') \<and>
     (distinct (map filePath (files sample_world)) \<longrightarrow> doc \<in> set (files w')) \<and>
     filePath doc = ''archive/2024/q1.pdf'' \<and>
     isFolder doc = (isFolder ?file \<or> endsWith_slash ''archive/2024/q1.pdf'') \<and>
     fileName doc = (if fileName ?file \<noteq> [] then fileName ?file
                     else basename (strip_trailing_slash ''archive/2024/q1.pdf'')) \<and>
     size_bytes doc = size_bytes ?file"
    by (rule copied_record_fields[OF c, where src = "''reports/''" and dst = "''archive/2024''"
          and destPrefix = "''archive/2024/''"])
      (simp_all add: copy_sample_keys endsWith_slash_def sample_world_def sample_doc_def startsWith_def)
  then have "\<exists>doc. FilesUpdateOne ''archive/2024/q1.pdf'' doc \<in> set (new_events sample_world w') \<and>
        doc \<in> set (files w') \<and>
        filePath doc = ''archive/2024/q1.pdf'' \<and> isFolder doc = False \<and>
        fileName doc = ''q1.pdf'' \<and> size_bytes doc = 5"
    using d by (simp add: sample_doc_def endsWith_slash_def)
  then show ?thesis using c d by blast
qed

text \<open>
  The claim as it was stated fails on both counts. In the sample with a record
  \<open>reports/legacy\<close> that is stored as a folder under the name \<open>Legacy data\<close>,
  after the folder \<open>reports/\<close> is copied to \<open>archive/2024\<close> the copy of that
  record is a folder although its new path does not end in a slash, and it carries the
  stored name, not the last segment of its new path; the record of the destination
  folder carries the name of the source folder.
\<close>

theorem copied_record_counterexample:
  "map_option (\<lambda>(r, w').
      (r, map (\<lambda>d. (filePath d, fileName d, isFolder d))
            (filter (\<lambda>d. filePath d = ''archive/2024/'' \<or> filePath d = ''archive/2024/legacy'')
               (files w'))))
     (copy_handler sample_services ''65a1b2c3d4e5f60718293a4b'' (Some ''reports/'')
        (Some ''archive/2024'') legacy_world) =
   Some (Ok200 (), [(''archive/2024/'', ''reports'', True),
                    (''archive/2024/legacy'', ''Legacy data'', True)]) \<and>
   basename (strip_trailing_slash ''archive/2024/'') = ''2024'' \<and>
   basename (strip_trailing_slash ''archive/2024/legacy'') = ''legacy'' \<and>
   \<not> endsWith_slash ''archive/2024/legacy''"
  by code_simp

end
